theory Spec2Isabelle
  imports Complex_Main "HOL-Library.Char_ord" "HOL-Library.List_Lexorder" "HOL-Library.AList"
begin

section \<open>Scalar values and Python comparisons\<close>

text \<open>
  A row maps column names to scalars: integers, floating point numbers and text
  (\<^verbatim>\<open>_parse_value\<close>). A finite float is represented by the rational it denotes;
  Python compares integers and floats by their exact numeric value. The order \<open><\<close>
  between a number and a string raises \<^verbatim>\<open>TypeError\<close>, equality \<open>==\<close> between them is
  \<^verbatim>\<open>False\<close>. Strings compare lexicographically by character code.
\<close>

datatype scalar = IntV int | FloatV rat | TextV string

text \<open>
  The exceptions of the source. \<open>SchemaError\<close> is the \<^verbatim>\<open>ValueError\<close> "Table ... does not
  exist", \<open>ConstraintViolation\<close> the \<^verbatim>\<open>ValueError\<close> "Duplicate value for unique column ...".
\<close>

datatype error = TypeError | IndexError | SchemaError | ConstraintViolation

fun py_lt :: "scalar \<Rightarrow> scalar \<Rightarrow> error + bool" where
  "py_lt (IntV a) (IntV b) = Inr (a < b)"
| "py_lt (IntV a) (FloatV q) = Inr (of_int a < q)"
| "py_lt (FloatV p) (IntV b) = Inr (p < of_int b)"
| "py_lt (FloatV p) (FloatV q) = Inr (p < q)"
| "py_lt (TextV s) (TextV t) = Inr (s < t)"
| "py_lt _ _ = Inl TypeError"

fun py_eq :: "scalar \<Rightarrow> scalar \<Rightarrow> bool" where
  "py_eq (IntV a) (IntV b) = (a = b)"
| "py_eq (IntV a) (FloatV q) = (of_int a = q)"
| "py_eq (FloatV p) (IntV b) = (p = of_int b)"
| "py_eq (FloatV p) (FloatV q) = (p = q)"
| "py_eq (TextV s) (TextV t) = (s = t)"
| "py_eq _ _ = False"

definition py_le :: "scalar \<Rightarrow> scalar \<Rightarrow> error + bool" where
  "py_le a b = (case py_lt a b of Inl e \<Rightarrow> Inl e | Inr lt \<Rightarrow> Inr (lt \<or> py_eq a b))"

definition py_gt :: "scalar \<Rightarrow> scalar \<Rightarrow> error + bool" where
  "py_gt a b = py_lt b a"

section \<open>Python lists\<close>

text \<open>\<^verbatim>\<open>xs[i]\<close> for an index \<open>i \<ge> 0\<close>: out of range raises \<^verbatim>\<open>IndexError\<close>.\<close>

definition list_get :: "'a list \<Rightarrow> nat \<Rightarrow> error + 'a" where
  "list_get xs i = (if i < length xs then Inr (xs ! i) else Inl IndexError)"

text \<open>\<^verbatim>\<open>xs.insert(i, x)\<close>: an index past the end appends.\<close>

definition list_insert :: "nat \<Rightarrow> 'a \<Rightarrow> 'a list \<Rightarrow> 'a list" where
  "list_insert i x xs = take i xs @ x # drop i xs"

text \<open>\<^verbatim>\<open>keys.index(key)\<close>: the first position holding a value equal (\<open>==\<close>) to the key;
  \<open>None\<close> is the \<^verbatim>\<open>ValueError\<close> that \<^verbatim>\<open>search\<close> catches.\<close>

fun index_of :: "scalar list \<Rightarrow> scalar \<Rightarrow> nat option" where
  "index_of [] x = None"
| "index_of (k # ks) x = (if py_eq k x then Some 0 else map_option Suc (index_of ks x))"

text \<open>
  \<^verbatim>\<open>bisect.bisect_left(a, x)\<close> of the standard library: binary search with the test
  \<^verbatim>\<open>a[mid] < x\<close>, which raises when the two are not comparable.
\<close>

function bisect_loop :: "scalar list \<Rightarrow> scalar \<Rightarrow> nat \<Rightarrow> nat \<Rightarrow> error + nat" where
  "bisect_loop a x lo hi =
     (if lo < hi then
        (case py_lt (a ! ((lo + hi) div 2)) x of
           Inl e \<Rightarrow> Inl e
         | Inr b \<Rightarrow> if b then bisect_loop a x ((lo + hi) div 2 + 1) hi
                    else bisect_loop a x lo ((lo + hi) div 2))
      else Inr lo)"
  by pat_completeness auto
termination
  by (relation "measure (\<lambda>(a, x, lo, hi). hi - lo)") auto

declare bisect_loop.simps [simp del]

definition bisect_left :: "scalar list \<Rightarrow> scalar \<Rightarrow> error + nat" where
  "bisect_left a x = bisect_loop a x 0 (length a)"

section \<open>The B+ tree\<close>

text \<open>
  \<^verbatim>\<open>BPlusTreeNode\<close>: every node object has an identity \<open>nid\<close> (its allocation number), the
  flag \<open>is_leaf\<close>, its \<open>keys\<close>, its \<open>children\<close> (owned: each node is in the child list of
  exactly one parent), its \<open>vals\<close> (the field \<^verbatim>\<open>values\<close>: one bucket per key, in a leaf)
  and \<open>nxt\<close> (the field \<^verbatim>\<open>next\<close>: a reference to the following leaf, held as that
  leaf's identity). A bucket is a Python list object shared between the caller and the
  tree, so \<open>vals\<close> holds bucket addresses into a heap of buckets.
\<close>

datatype node = Node (nid: nat) (is_leaf: bool) (keys: "scalar list")
  (children: "node list") (vals: "nat list") (nxt: "nat option")

text \<open>\<^verbatim>\<open>BPlusTree\<close>: the root, the order and the number of node objects allocated so far.\<close>

record bplustree =
  tree_root :: node
  order :: nat
  fresh :: nat

type_synonym row = "(string \<times> scalar) list"

type_synonym heap = "row list list"

definition deref :: "heap \<Rightarrow> nat \<Rightarrow> row list" where
  "deref h a = (if a < length h then h ! a else [])"

definition new_tree :: "nat \<Rightarrow> bplustree" where
  "new_tree ord = \<lparr>tree_root = Node 0 True [] [] [] None, order = ord, fresh = 1\<rparr>"

lemma list_get_size [termination_simp]:
  "list_get cs i = Inr c \<Longrightarrow> size c < Suc (size_list size cs)"
proof -
  assume "list_get cs i = Inr c"
  then have "c \<in> set cs" by (auto simp: list_get_def split: if_splits)
  then have "size c \<le> size_list size cs" by (simp add: size_list_estimation')
  then show ?thesis by simp
qed

text \<open>The descent loop \<^verbatim>\<open>while not node.is_leaf\<close> of \<^verbatim>\<open>search\<close> and \<^verbatim>\<open>range_query\<close>.\<close>

fun find_leaf :: "node \<Rightarrow> scalar \<Rightarrow> error + node" where
  "find_leaf (Node n lf ks cs vs nx) key =
     (if lf then Inr (Node n lf ks cs vs nx)
      else (case bisect_left ks key of
              Inl e \<Rightarrow> Inl e
            | Inr i \<Rightarrow> (case list_get cs i of
                          Inl e \<Rightarrow> Inl e
                        | Inr c \<Rightarrow> find_leaf c key)))"

text \<open>\<^verbatim>\<open>BPlusTree.search\<close>: the bucket (its address) stored under the key, or \<open>None\<close>.\<close>

definition search :: "bplustree \<Rightarrow> scalar \<Rightarrow> error + nat option" where
  "search t key =
     (case find_leaf (tree_root t) key of
        Inl e \<Rightarrow> Inl e
      | Inr leaf \<Rightarrow>
          (case index_of (keys leaf) key of
             None \<Rightarrow> Inr None
           | Some idx \<Rightarrow> (case list_get (vals leaf) idx of
                           Inl e \<Rightarrow> Inl e
                         | Inr v \<Rightarrow> Inr (Some v))))"

text \<open>
  \<^verbatim>\<open>BPlusTree._split_child(parent, index)\<close>. The result is the parent as mutated, the
  allocation counter, and the exception raised if any; a raise after the full child has
  been cut leaves the cut child in place.
\<close>

definition split_child :: "nat \<Rightarrow> nat \<Rightarrow> node \<Rightarrow> nat \<Rightarrow> (node \<times> nat) \<times> error option" where
  "split_child ord fr parent index =
     (case list_get (children parent) index of
        Inl e \<Rightarrow> ((parent, fr), Some e)
      | Inr full_node \<Rightarrow>
          (let mid = ord div 2;
               new_keys = drop mid (keys full_node);
               full_keys = take mid (keys full_node)
           in if is_leaf full_node then
                (let new_node = Node fr True new_keys [] (drop mid (vals full_node)) (nxt full_node);
                     full' = Node (nid full_node) True full_keys (children full_node)
                               (take mid (vals full_node)) (Some fr);
                     kids = (children parent)[index := full']
                 in case list_get new_keys 0 of
                      Inl e \<Rightarrow>
                        ((Node (nid parent) (is_leaf parent) (keys parent) kids
                            (vals parent) (nxt parent), Suc fr), Some e)
                    | Inr k0 \<Rightarrow>
                        ((Node (nid parent) (is_leaf parent) (list_insert index k0 (keys parent))
                            (list_insert (Suc index) new_node kids)
                            (vals parent) (nxt parent), Suc fr), None))
              else
                (let new_node = Node fr False new_keys (drop mid (children full_node)) [] None
                 in if full_keys = [] then
                      ((Node (nid parent) (is_leaf parent) (keys parent)
                          ((children parent)[index :=
                             Node (nid full_node) False full_keys (take mid (children full_node))
                               (vals full_node) (nxt full_node)])
                          (vals parent) (nxt parent), Suc fr), Some IndexError)
                    else
                      ((Node (nid parent) (is_leaf parent)
                          (list_insert index (last full_keys) (keys parent))
                          (list_insert (Suc index) new_node
                             ((children parent)[index :=
                                Node (nid full_node) False (butlast full_keys)
                                  (take mid (children full_node)) (vals full_node) (nxt full_node)]))
                          (vals parent) (nxt parent), Suc fr), None))))"

lemma size_child [termination_simp]:
  "list_get (children p) i = Inr c \<Longrightarrow> size c < size p"
  by (cases p) (auto dest: list_get_size)

lemma size_list_take: "size_list f (take m xs) \<le> size_list f xs"
  by (induction xs arbitrary: m) (auto simp: take_Cons split: nat.splits intro: le_SucI)

lemma size_list_drop: "size_list f (drop m xs) \<le> size_list f xs"
  by (induction xs arbitrary: m)
    (auto simp: drop_Cons split: nat.splits intro: le_SucI trans_le_add2)

lemma set_list_insert: "set (list_insert i x xs) = insert x (set xs)"
proof -
  have "set (take i xs) \<union> set (drop i xs) = set xs"
    by (metis append_take_drop_id set_append)
  then show ?thesis by (auto simp: list_insert_def)
qed

lemma size_split_child:
  assumes "split_child ord fr p i = ((p', fr'), None)" and "c \<in> set (children p')"
  shows "size c < size p"
proof -
  obtain f where f: "list_get (children p) i = Inr f"
    using assms(1) by (auto simp: split_child_def split: sum.splits)
  then have fp: "size f < size p" by (rule size_child)
  have old: "\<And>d. d \<in> set (children p) \<Longrightarrow> size d < size p"
    by (cases p) (auto simp: less_Suc_eq_le size_list_estimation')
  have tk: "size_list size (take m (children f)) \<le> size_list size (children f)" for m
    by (rule size_list_take)
  have dr: "size_list size (drop m (children f)) \<le> size_list size (children f)" for m
    by (rule size_list_drop)
  have sf: "size f = Suc (size_list size (children f))" by (cases f) simp
  from assms f show ?thesis
    using fp old tk[of "ord div 2"] dr[of "ord div 2"] sf
    by (auto simp: split_child_def Let_def set_list_insert split: sum.splits if_splits
        dest!: set_update_subset_insert[THEN subsetD])
qed

lemma size_split_child_nth:
  "((p', fr'), None) = split_child ord fr p i \<Longrightarrow> j < length (children p')
    \<Longrightarrow> size (children p' ! j) < size p"
  using size_split_child[of ord fr p i p' fr' "children p' ! j"] by simp

text \<open>
  \<^verbatim>\<open>BPlusTree._insert_non_full(node, key, value)\<close>; \<open>v\<close> is the address of the bucket. The
  result is the node as mutated, the allocation counter and the exception raised if any.
\<close>

function insert_non_full ::
  "nat \<Rightarrow> nat \<Rightarrow> node \<Rightarrow> scalar \<Rightarrow> nat \<Rightarrow> (node \<times> nat) \<times> error option" where
  "insert_non_full ord fr node key v =
     (if is_leaf node then
        (case bisect_left (keys node) key of
           Inl e \<Rightarrow> ((node, fr), Some e)
         | Inr i \<Rightarrow>
             ((Node (nid node) (is_leaf node) (list_insert i key (keys node)) (children node)
                 (list_insert i v (vals node)) (nxt node), fr), None))
      else
        (case bisect_left (keys node) key of
           Inl e \<Rightarrow> ((node, fr), Some e)
         | Inr i \<Rightarrow>
             (case list_get (children node) i of
                Inl e \<Rightarrow> ((node, fr), Some e)
              | Inr c \<Rightarrow>
                  if length (keys c) \<ge> ord - 1 then
                    (case split_child ord fr node i of
                       (s, Some e) \<Rightarrow> (s, Some e)
                     | ((node', fr'), None) \<Rightarrow>
                         (case list_get (keys node') i of
                            Inl e \<Rightarrow> ((node', fr'), Some e)
                          | Inr k \<Rightarrow>
                              (case py_gt key k of
                                 Inl e \<Rightarrow> ((node', fr'), Some e)
                               | Inr b \<Rightarrow>
                                   (case list_get (children node') (if b then i + 1 else i) of
                                      Inl e \<Rightarrow> ((node', fr'), Some e)
                                    | Inr c' \<Rightarrow>
                                        (case insert_non_full ord fr' c' key v of
                                           ((c'', fr''), err) \<Rightarrow>
                                             ((Node (nid node') (is_leaf node') (keys node')
                                                 ((children node')[(if b then i + 1 else i) := c''])
                                                 (vals node') (nxt node'), fr''), err))))))
                  else
                    (case insert_non_full ord fr c key v of
                       ((c'', fr''), err) \<Rightarrow>
                         ((Node (nid node) (is_leaf node) (keys node)
                             ((children node)[i := c'']) (vals node) (nxt node), fr''), err)))))"
  by pat_completeness auto
termination
proof (relation "measure (\<lambda>(ord, fr, node, key, v). size node)", goal_cases)
  case 1
  show ?case by simp
next
  case (2 ord fr node key v i c)
  then show ?case
    by (auto simp: list_get_def size_split_child_nth split: if_splits)
next
  case (3 ord fr node key v i c)
  then show ?case by (auto dest: size_child)
qed

declare insert_non_full.simps [simp del]

text \<open>
  \<^verbatim>\<open>BPlusTree.insert(key, value)\<close>. The new root is allocated before the new sibling;
  \<^verbatim>\<open>self.root\<close> is reassigned only after the split has returned.
\<close>

definition tree_insert :: "bplustree \<Rightarrow> scalar \<Rightarrow> nat \<Rightarrow> bplustree \<times> error option" where
  "tree_insert t key v =
     (if length (keys (tree_root t)) \<ge> order t - 1 then
        (case split_child (order t) (Suc (fresh t))
                (Node (fresh t) False [] [tree_root t] [] None) 0 of
           ((new_root, fr), Some e) \<Rightarrow>
             (t\<lparr>tree_root := (case children new_root of [] \<Rightarrow> tree_root t | c # _ \<Rightarrow> c),
                fresh := fr\<rparr>, Some e)
         | ((new_root, fr), None) \<Rightarrow>
             (case insert_non_full (order t) fr new_root key v of
                ((r, fr'), err) \<Rightarrow> (t\<lparr>tree_root := r, fresh := fr'\<rparr>, err)))
      else
        (case insert_non_full (order t) (fresh t) (tree_root t) key v of
           ((r, fr'), err) \<Rightarrow> (t\<lparr>tree_root := r, fresh := fr'\<rparr>, err)))"

text \<open>Following a reference to a node: the node of that identity in the tree.\<close>

fun find_node :: "nat \<Rightarrow> node \<Rightarrow> node option"
  and find_nodes :: "nat \<Rightarrow> node list \<Rightarrow> node option" where
  "find_node j (Node n lf ks cs vs nx) =
     (if j = n then Some (Node n lf ks cs vs nx) else find_nodes j cs)"
| "find_nodes j [] = None"
| "find_nodes j (c # cs) =
     (case find_node j c of Some m \<Rightarrow> Some m | None \<Rightarrow> find_nodes j cs)"

fun count_nodes :: "node \<Rightarrow> nat" where
  "count_nodes (Node n lf ks cs vs nx) = Suc (sum_list (map count_nodes cs))"

text \<open>
  The loop \<^verbatim>\<open>for i, key in enumerate(node.keys)\<close> of \<^verbatim>\<open>range_query\<close> on one leaf. The
  flag of the result says that the function returned from inside the loop.
\<close>

fun scan_leaf :: "heap \<Rightarrow> nat list \<Rightarrow> scalar \<Rightarrow> scalar \<Rightarrow> nat \<Rightarrow> scalar list \<Rightarrow> row list
    \<Rightarrow> error + (bool \<times> row list)" where
  "scan_leaf h vs min_key max_key i [] results = Inr (False, results)"
| "scan_leaf h vs min_key max_key i (key # ks) results =
     (case py_le min_key key of
        Inl e \<Rightarrow> Inl e
      | Inr b1 \<Rightarrow>
          (case (if b1 then py_le key max_key else Inr False) of
             Inl e \<Rightarrow> Inl e
           | Inr b2 \<Rightarrow>
               if b2 then
                 (case list_get vs i of
                    Inl e \<Rightarrow> Inl e
                  | Inr a \<Rightarrow> scan_leaf h vs min_key max_key (Suc i) ks (results @ deref h a))
               else
                 (case py_gt key max_key of
                    Inl e \<Rightarrow> Inl e
                  | Inr b3 \<Rightarrow>
                      if b3 then Inr (True, results)
                      else scan_leaf h vs min_key max_key (Suc i) ks results)))"

text \<open>
  The loop \<^verbatim>\<open>while node\<close> along the leaf chain. It runs on fuel, since a chain of
  references need not end; \<open>None\<close> is "no result": the fuel ran out, or a reference
  leads to no node of the tree.
\<close>

fun walk_leaves :: "nat \<Rightarrow> heap \<Rightarrow> node \<Rightarrow> node \<Rightarrow> scalar \<Rightarrow> scalar \<Rightarrow> row list
    \<Rightarrow> (error + row list) option" where
  "walk_leaves 0 h r leaf min_key max_key results = None"
| "walk_leaves (Suc fuel) h r leaf min_key max_key results =
     (case scan_leaf h (vals leaf) min_key max_key 0 (keys leaf) results of
        Inl e \<Rightarrow> Some (Inl e)
      | Inr (stop, results') \<Rightarrow>
          if stop then Some (Inr results')
          else (case nxt leaf of
                  None \<Rightarrow> Some (Inr results')
                | Some j \<Rightarrow>
                    (case find_node j r of
                       None \<Rightarrow> None
                     | Some leaf' \<Rightarrow> walk_leaves fuel h r leaf' min_key max_key results')))"

text \<open>\<^verbatim>\<open>BPlusTree.range_query(min_key, max_key)\<close>, with one unit of fuel per node.\<close>

definition range_query :: "heap \<Rightarrow> bplustree \<Rightarrow> scalar \<Rightarrow> scalar \<Rightarrow> (error + row list) option" where
  "range_query h t min_key max_key =
     (case find_leaf (tree_root t) min_key of
        Inl e \<Rightarrow> Some (Inl e)
      | Inr leaf \<Rightarrow>
          walk_leaves (count_nodes (tree_root t)) h (tree_root t) leaf min_key max_key [])"

text \<open>
  How the engine folds a row into an index (\<^verbatim>\<open>_create_index\<close> and \<^verbatim>\<open>_insert\<close>):
  \<^verbatim>\<open>existing = tree.search(value) or []; existing.append(row); tree.insert(value, existing)\<close>.
  \<^verbatim>\<open>or []\<close> allocates a new bucket when the search found none (or an empty one);
  \<^verbatim>\<open>append\<close> mutates the bucket in place.
\<close>

definition index_row :: "heap \<Rightarrow> bplustree \<Rightarrow> scalar \<Rightarrow> row
    \<Rightarrow> (heap \<times> bplustree) \<times> error option" where
  "index_row h t v r =
     (case search t v of
        Inl e \<Rightarrow> ((h, t), Some e)
      | Inr found \<Rightarrow>
          (let (a, h1) = (case found of
                            None \<Rightarrow> (length h, h @ [[]])
                          | Some a \<Rightarrow> if deref h a = [] then (length h, h @ [[]]) else (a, h));
               h2 = h1[a := deref h1 a @ [r]]
           in case tree_insert t v a of (t', err) \<Rightarrow> ((h2, t'), err)))"

text \<open>A sequence of such insertions, stopping at the first exception.\<close>

fun index_rows :: "heap \<Rightarrow> bplustree \<Rightarrow> (scalar \<times> row) list
    \<Rightarrow> (heap \<times> bplustree) \<times> error option" where
  "index_rows h t [] = ((h, t), None)"
| "index_rows h t ((k, r) # krs) =
     (case index_row h t k r of
        ((h', t'), None) \<Rightarrow> index_rows h' t' krs
      | (s, Some e) \<Rightarrow> (s, Some e))"

section \<open>The write-ahead log\<close>

text \<open>
  \<^verbatim>\<open>WALEntry\<close> without its wall-clock timestamp. The payload of a \<^verbatim>\<open>CREATE_TABLE\<close> entry
  is the column list, of an \<^verbatim>\<open>INSERT\<close> entry the row.
\<close>

record column =
  col_name :: string
  col_type :: string
  is_primary :: bool
  is_unique :: bool

datatype payload = ColumnsP "column list" | RowP row | OldNewP row row

record wal_entry =
  operation :: string
  entry_table :: string
  payload_of :: payload
  lsn :: int

text \<open>
  \<^verbatim>\<open>WriteAheadLog\<close>. \<open>wal_file\<close> is the persisted file, one entry per line (\<open>None\<close>: the
  file does not exist); each line is the JSON text of the entry, which \<^verbatim>\<open>json.loads\<close>
  reads back unchanged.
\<close>

record write_ahead_log =
  wal_file :: "wal_entry list option"
  entries :: "wal_entry list"
  lsn_counter :: int
  checkpoint_lsn :: int

definition checkpoint :: "write_ahead_log \<Rightarrow> write_ahead_log" where
  "checkpoint w = w\<lparr>checkpoint_lsn := int (length (entries w))\<rparr>"

definition persist_entry :: "wal_entry list option \<Rightarrow> wal_entry \<Rightarrow> wal_entry list option" where
  "persist_entry f entry = (case f of None \<Rightarrow> Some [entry] | Some es \<Rightarrow> Some (es @ [entry]))"

text \<open>\<^verbatim>\<open>WriteAheadLog.append(operation, table, data)\<close>: the log afterwards and the LSN returned.\<close>

definition wal_append :: "write_ahead_log \<Rightarrow> string \<Rightarrow> string \<Rightarrow> payload
    \<Rightarrow> write_ahead_log \<times> int" where
  "wal_append w opn tbl d =
     (let entry = \<lparr>operation = opn, entry_table = tbl, payload_of = d, lsn = lsn_counter w\<rparr>;
          w1 = w\<lparr>lsn_counter := lsn_counter w + 1,
                 entries := entries w @ [entry],
                 wal_file := persist_entry (wal_file w) entry\<rparr>;
          w2 = (if int (length (entries w1)) - checkpoint_lsn w1 > 100 then checkpoint w1 else w1)
      in (w2, lsn entry))"

text \<open>\<^verbatim>\<open>WriteAheadLog.__init__\<close> with \<^verbatim>\<open>_load_wal\<close>: a new log object over the file.\<close>

definition load_wal :: "wal_entry list option \<Rightarrow> write_ahead_log" where
  "load_wal f =
     fold (\<lambda>entry w. w\<lparr>entries := entries w @ [entry],
                         lsn_counter := max (lsn_counter w) (lsn entry + 1)\<rparr>)
       (case f of None \<Rightarrow> [] | Some es \<Rightarrow> es)
       \<lparr>wal_file = f, entries = [], lsn_counter = 0, checkpoint_lsn = 0\<rparr>"

text \<open>\<^verbatim>\<open>WriteAheadLog.clear()\<close>.\<close>

definition wal_clear :: "write_ahead_log \<Rightarrow> write_ahead_log" where
  "wal_clear w = w\<lparr>wal_file := None, entries := []\<rparr>"

text \<open>
  A life of the log: appends, \<^verbatim>\<open>clear()\<close> calls, and restarts of the process, which
  build a new log object from the persisted file. \<open>run_wal\<close> collects the LSNs that the
  appends return, in order.
\<close>

datatype wal_op = Append string string payload | Clear | Restart

fun run_wal :: "write_ahead_log \<Rightarrow> wal_op list \<Rightarrow> int list" where
  "run_wal w [] = []"
| "run_wal w (Append opn tbl d # ops) =
     (case wal_append w opn tbl d of (w', l) \<Rightarrow> l # run_wal w' ops)"
| "run_wal w (Clear # ops) = run_wal (wal_clear w) ops"
| "run_wal w (Restart # ops) = run_wal (load_wal (wal_file w)) ops"

section \<open>Tables, snapshots and the engine\<close>

text \<open>
  \<^verbatim>\<open>Table\<close>. A Python dict is an association list in insertion order, read with
  \<open>map_of\<close> and written with \<open>AList.update\<close> (in place for a key it has, at the end for
  a new one). The set \<^verbatim>\<open>unique_columns\<close> is a list without repetition; Python leaves the
  iteration order of a set open, and here it is the order of insertion.
\<close>

record table =
  name :: string
  columns :: "column list"
  rows :: "row list"
  primary_key :: "string option"
  unique_columns :: "string list"
  next_id :: int

definition set_add :: "'a \<Rightarrow> 'a list \<Rightarrow> 'a list" where
  "set_add x xs = (if x \<in> set xs then xs else xs @ [x])"

definition py_set :: "'a list \<Rightarrow> 'a list" where
  "py_set xs = fold set_add xs []"

text \<open>\<^verbatim>\<open>Table.__init__(name, columns, primary_key)\<close>.\<close>

definition table_init :: "string \<Rightarrow> column list \<Rightarrow> string option \<Rightarrow> table" where
  "table_init n cols pk =
     \<lparr>name = n, columns = cols, rows = [], primary_key = pk,
      unique_columns = py_set (map col_name (filter is_unique cols)), next_id = 1\<rparr>"

record index_data =
  idx_table :: string
  idx_column :: string
  tree :: bplustree

text \<open>What \<^verbatim>\<open>create_snapshot\<close> stores for one table, and reads back from the JSON file.\<close>

record table_data =
  snap_columns :: "column list"
  snap_rows :: "row list"
  snap_primary_key :: "string option"
  snap_unique_columns :: "string list"
  snap_next_id :: int

type_synonym snapshot = "(string \<times> table_data) list"

text \<open>
  \<^verbatim>\<open>PaymentRDBMS\<close>: the tables, the index registrations, the log, the snapshot file of
  its \<^verbatim>\<open>StorageManager\<close> (\<open>None\<close>: no file), and the heap of bucket objects.
\<close>

record engine =
  tables :: "(string \<times> table) list"
  indexes :: "(string \<times> index_data) list"
  wal :: write_ahead_log
  snapshot_file :: "snapshot option"
  heap :: heap

text \<open>The loop of \<^verbatim>\<open>_create_index\<close> over the rows of the table.\<close>

fun build_index :: "heap \<Rightarrow> bplustree \<Rightarrow> string \<Rightarrow> row list
    \<Rightarrow> (heap \<times> bplustree) \<times> error option" where
  "build_index h t column_name [] = ((h, t), None)"
| "build_index h t column_name (r # rs) =
     (case map_of r column_name of
        None \<Rightarrow> build_index h t column_name rs
      | Some v \<Rightarrow>
          (case index_row h t v r of
             ((h', t'), None) \<Rightarrow> build_index h' t' column_name rs
           | (s, Some e) \<Rightarrow> (s, Some e)))"

definition default_index_key :: "string \<Rightarrow> string \<Rightarrow> string" where
  "default_index_key table_name column_name = table_name @ ''_'' @ column_name @ ''_idx''"

text \<open>\<^verbatim>\<open>PaymentRDBMS._create_index(table_name, column_name, index_name=None)\<close>.\<close>

definition create_index :: "engine \<Rightarrow> string \<Rightarrow> string \<Rightarrow> string option
    \<Rightarrow> engine \<times> error option" where
  "create_index e table_name column_name index_name =
     (let key = (case index_name of
                   None \<Rightarrow> default_index_key table_name column_name
                 | Some n \<Rightarrow> if n = [] then default_index_key table_name column_name else n)
      in case (case map_of (tables e) table_name of
                 None \<Rightarrow> ((heap e, new_tree 4), None)
               | Some tb \<Rightarrow> build_index (heap e) (new_tree 4) column_name (rows tb)) of
           ((h, t), Some err) \<Rightarrow> (e\<lparr>heap := h\<rparr>, Some err)
         | ((h, t), None) \<Rightarrow>
             (e\<lparr>heap := h,
                indexes := AList.update key
                  \<lparr>idx_table = table_name, idx_column = column_name, tree = t\<rparr> (indexes e)\<rparr>,
              None))"

text \<open>
  The loop of \<^verbatim>\<open>_create_table\<close> over the column definitions (already parsed): it
  creates the indexes and finds the primary key.
\<close>

fun create_table_indexes :: "engine \<Rightarrow> string \<Rightarrow> column list \<Rightarrow> string option
    \<Rightarrow> (engine \<times> string option) \<times> error option" where
  "create_table_indexes e table_name [] pk = ((e, pk), None)"
| "create_table_indexes e table_name (c # cs) pk =
     (case (if is_primary c then create_index e table_name (col_name c) None else (e, None)) of
        (e1, Some err) \<Rightarrow> ((e1, pk), Some err)
      | (e1, None) \<Rightarrow>
          (case (if is_unique c then create_index e1 table_name (col_name c) None
                 else (e1, None)) of
             (e2, Some err) \<Rightarrow> ((e2, pk), Some err)
           | (e2, None) \<Rightarrow>
               create_table_indexes e2 table_name cs
                 (if is_primary c then Some (col_name c) else pk)))"

text \<open>\<^verbatim>\<open>PaymentRDBMS._create_table\<close>, on the parsed statement: the table name and the
  column definitions.\<close>

definition create_table :: "engine \<Rightarrow> string \<Rightarrow> column list \<Rightarrow> engine \<times> error option" where
  "create_table e table_name cols =
     (case create_table_indexes e table_name cols None of
        ((e1, pk), Some err) \<Rightarrow> (e1, Some err)
      | ((e1, pk), None) \<Rightarrow>
          (e1\<lparr>tables := AList.update table_name (table_init table_name cols pk) (tables e1),
              wal := fst (wal_append (wal e1) ''CREATE_TABLE'' table_name (ColumnsP cols))\<rparr>,
           None))"

text \<open>
  \<^verbatim>\<open>_insert\<close>, first part: whether the primary key is generated
  (\<^verbatim>\<open>table.primary_key and table.primary_key not in columns\<close>), and the row built from
  it and from \<^verbatim>\<open>zip(columns, values)\<close>.
\<close>

definition auto_key :: "table \<Rightarrow> string list \<Rightarrow> bool" where
  "auto_key tb cols =
     (case primary_key tb of None \<Rightarrow> False | Some pk \<Rightarrow> pk \<noteq> [] \<and> pk \<notin> set cols)"

definition build_row :: "table \<Rightarrow> string list \<Rightarrow> scalar list \<Rightarrow> row" where
  "build_row tb cols vs =
     fold (\<lambda>(c, v). AList.update c v) (zip cols vs)
       (case primary_key tb of
          None \<Rightarrow> []
        | Some pk \<Rightarrow> if auto_key tb cols then [(pk, IntV (next_id tb))] else [])"

text \<open>The unique-constraint check of \<^verbatim>\<open>_insert\<close>: whether it raises.\<close>

definition holds_value :: "string \<Rightarrow> scalar \<Rightarrow> row \<Rightarrow> bool" where
  "holds_value c v r = (case map_of r c of None \<Rightarrow> False | Some v' \<Rightarrow> py_eq v' v)"

definition violates_unique :: "table \<Rightarrow> row \<Rightarrow> bool" where
  "violates_unique tb r =
     list_ex (\<lambda>unique_col.
        case map_of r unique_col of
          None \<Rightarrow> False
        | Some v \<Rightarrow> list_ex (holds_value unique_col v) (rows tb))
       (unique_columns tb)"

text \<open>The loop of \<^verbatim>\<open>_insert\<close> over \<^verbatim>\<open>self.indexes.items()\<close>.\<close>

fun update_indexes :: "heap \<Rightarrow> string \<Rightarrow> row \<Rightarrow> (string \<times> index_data) list
    \<Rightarrow> (heap \<times> (string \<times> index_data) list) \<times> error option" where
  "update_indexes h table_name r [] = ((h, []), None)"
| "update_indexes h table_name r ((k, ix) # rest) =
     (if idx_table ix = table_name then
        (case map_of r (idx_column ix) of
           None \<Rightarrow>
             (case update_indexes h table_name r rest of
                ((h', rest'), err) \<Rightarrow> ((h', (k, ix) # rest'), err))
         | Some v \<Rightarrow>
             (case index_row h (tree ix) v r of
                ((h', t'), Some e) \<Rightarrow> ((h', (k, ix\<lparr>tree := t'\<rparr>) # rest), Some e)
              | ((h', t'), None) \<Rightarrow>
                  (case update_indexes h' table_name r rest of
                     ((h'', rest'), err) \<Rightarrow> ((h'', (k, ix\<lparr>tree := t'\<rparr>) # rest'), err))))
      else
        (case update_indexes h table_name r rest of
           ((h', rest'), err) \<Rightarrow> ((h', (k, ix) # rest'), err)))"

text \<open>
  \<^verbatim>\<open>PaymentRDBMS._insert\<close>, on the parsed statement: the table name, the column names and
  the values. The result is the engine as mutated, and the exception raised or the
  \<^verbatim>\<open>inserted_id\<close> returned.
\<close>

definition db_insert :: "engine \<Rightarrow> string \<Rightarrow> string list \<Rightarrow> scalar list
    \<Rightarrow> engine \<times> (error + scalar option)" where
  "db_insert e table_name cols vs =
     (case map_of (tables e) table_name of
        None \<Rightarrow> (e, Inl SchemaError)
      | Some tb \<Rightarrow>
          (let r = build_row tb cols vs;
               tb1 = (if auto_key tb cols then tb\<lparr>next_id := next_id tb + 1\<rparr> else tb);
               e1 = e\<lparr>tables := AList.update table_name tb1 (tables e)\<rparr>
           in if violates_unique tb1 r then (e1, Inl ConstraintViolation)
              else
                (let e2 = e1\<lparr>tables :=
                              AList.update table_name (tb1\<lparr>rows := rows tb1 @ [r]\<rparr>) (tables e1)\<rparr>
                 in case update_indexes (heap e2) table_name r (indexes e2) of
                      ((h, ixs), Some err) \<Rightarrow> (e2\<lparr>heap := h, indexes := ixs\<rparr>, Inl err)
                    | ((h, ixs), None) \<Rightarrow>
                        (e2\<lparr>heap := h, indexes := ixs,
                            wal := fst (wal_append (wal e2) ''INSERT'' table_name (RowP r))\<rparr>,
                         Inr (case primary_key tb of
                                None \<Rightarrow> None
                              | Some pk \<Rightarrow> map_of r pk)))))"

text \<open>The table scan of \<^verbatim>\<open>_filter_rows\<close>:
  \<^verbatim>\<open>[row for row in rows if row.get(column) == value]\<close>.\<close>

definition table_scan :: "row list \<Rightarrow> string \<Rightarrow> scalar \<Rightarrow> row list" where
  "table_scan rws column v = filter (holds_value column v) rws"

text \<open>\<^verbatim>\<open>PaymentRDBMS._filter_rows\<close>, on the parsed predicate \<^verbatim>\<open>column = value\<close>.\<close>

definition filter_rows :: "engine \<Rightarrow> table \<Rightarrow> row list \<Rightarrow> string \<Rightarrow> scalar \<Rightarrow> error + row list" where
  "filter_rows e tb rws column v =
     (case map_of (indexes e) (default_index_key (name tb) column) of
        Some ix \<Rightarrow>
          (case search (tree ix) v of
             Inl err \<Rightarrow> Inl err
           | Inr None \<Rightarrow> Inr []
           | Inr (Some a) \<Rightarrow> Inr (deref (heap e) a))
      | None \<Rightarrow> Inr (table_scan rws column v))"


text \<open>The loop \<^verbatim>\<open>for col in table.unique_columns: self._create_index(name, col)\<close>.\<close>

fun create_indexes :: "engine \<Rightarrow> string \<Rightarrow> string list \<Rightarrow> engine \<times> error option" where
  "create_indexes e table_name [] = (e, None)"
| "create_indexes e table_name (c # cs) =
     (case create_index e table_name c None of
        (e1, Some err) \<Rightarrow> (e1, Some err)
      | (e1, None) \<Rightarrow> create_indexes e1 table_name cs)"

text \<open>The loop of \<^verbatim>\<open>_load_from_snapshot\<close> over the tables of the snapshot.\<close>

fun load_tables :: "engine \<Rightarrow> snapshot \<Rightarrow> engine \<times> error option" where
  "load_tables e [] = (e, None)"
| "load_tables e ((n, td) # rest) =
     (let tb = (table_init n (snap_columns td) (snap_primary_key td))
                 \<lparr>rows := snap_rows td,
                  unique_columns := py_set (snap_unique_columns td),
                  next_id := snap_next_id td\<rparr>;
          e1 = e\<lparr>tables := AList.update n tb (tables e)\<rparr>
      in case (case primary_key tb of
                 None \<Rightarrow> (e1, None)
               | Some pk \<Rightarrow> if pk = [] then (e1, None) else create_index e1 n pk None) of
           (e2, Some err) \<Rightarrow> (e2, Some err)
         | (e2, None) \<Rightarrow>
             (case create_indexes e2 n (unique_columns tb) of
                (e3, Some err) \<Rightarrow> (e3, Some err)
              | (e3, None) \<Rightarrow> load_tables e3 rest))"

definition load_from_snapshot :: "engine \<Rightarrow> engine \<times> error option" where
  "load_from_snapshot e =
     (case snapshot_file e of None \<Rightarrow> (e, None) | Some snap \<Rightarrow> load_tables e snap)"

text \<open>
  \<^verbatim>\<open>PaymentRDBMS.__init__\<close>: a fresh engine over the files on disk. An exception leaves
  no engine object; the engine of the result is then the state the constructor had
  reached.
\<close>

definition new_engine :: "wal_entry list option \<Rightarrow> snapshot option \<Rightarrow> engine \<times> error option" where
  "new_engine log_file snap_file =
     load_from_snapshot
       \<lparr>tables = [], indexes = [], wal = load_wal log_file, snapshot_file = snap_file,
        heap = []\<rparr>"

section \<open>Notions used in the statements and proofs\<close>

text \<open>The lines of the persisted file (none when the file does not exist).\<close>

definition file_lines :: "wal_entry list option \<Rightarrow> wal_entry list" where
  "file_lines f = (case f of None \<Rightarrow> [] | Some es \<Rightarrow> es)"

text \<open>
  \<open>restart_safe cleared ops\<close>: no restart in \<open>ops\<close> comes after a \<^verbatim>\<open>clear()\<close> with no
  append in between (\<open>cleared\<close> says that the log has been cleared since the last
  append).
\<close>

fun restart_safe :: "bool \<Rightarrow> wal_op list \<Rightarrow> bool" where
  "restart_safe cleared [] = True"
| "restart_safe cleared (Append opn tbl d # ops) = restart_safe False ops"
| "restart_safe cleared (Clear # ops) = restart_safe True ops"
| "restart_safe cleared (Restart # ops) = (\<not> cleared \<and> restart_safe cleared ops)"

fun count_appends :: "wal_op list \<Rightarrow> nat" where
  "count_appends [] = 0"
| "count_appends (Append opn tbl d # ops) = Suc (count_appends ops)"
| "count_appends (Clear # ops) = count_appends ops"
| "count_appends (Restart # ops) = count_appends ops"

text \<open>The counter that \<^verbatim>\<open>_load_wal\<close> computes from the lines of the file.\<close>

definition next_lsn :: "wal_entry list \<Rightarrow> int" where
  "next_lsn es = fold (\<lambda>entry m. max m (lsn entry + 1)) es 0"

text \<open>
  The shape of a node of a tree of order 4: at most three keys; a leaf has one bucket
  reference per key, an internal node one child more than keys, and well-shaped
  children.
\<close>

fun shaped :: "node \<Rightarrow> bool" where
  "shaped (Node n lf ks cs vs nx) =
     (length ks \<le> 3 \<and>
      (if lf then length vs = length ks
       else length cs = Suc (length ks) \<and> list_all shaped cs))"

text \<open>The bucket references held by the leaves below a node, from left to right.\<close>

fun leaf_vals :: "node \<Rightarrow> nat list" where
  "leaf_vals (Node n lf ks cs vs nx) = (if lf then vs else concat (map leaf_vals cs))"

text \<open>A tree as \<^verbatim>\<open>_create_index\<close> builds them: of order 4, with a well-shaped root.\<close>

definition tree_ok :: "bplustree \<Rightarrow> bool" where
  "tree_ok t = (order t = 4 \<and> shaped (tree_root t))"

text \<open>The rows held by the buckets that the leaves of a tree refer to.\<close>

definition bucket_rows :: "heap \<Rightarrow> bplustree \<Rightarrow> row list" where
  "bucket_rows h t = concat (map (deref h) (leaf_vals (tree_root t)))"

text \<open>Buckets only grow: every bucket of \<open>h\<close> holds its rows in \<open>h'\<close> too.\<close>

definition heap_le :: "heap \<Rightarrow> heap \<Rightarrow> bool" where
  "heap_le h h' = (\<forall>a. set (deref h a) \<subseteq> set (deref h' a))"

text \<open>The index registered for a column holds the rows of the table that have the column.\<close>

definition index_holds :: "engine \<Rightarrow> string \<Rightarrow> string \<Rightarrow> row list \<Rightarrow> bool" where
  "index_holds e tn c rs =
     (case map_of (indexes e) (default_index_key tn c) of
        None \<Rightarrow> False
      | Some ix \<Rightarrow> idx_table ix = tn \<and> idx_column ix = c \<and>
          list_all (\<lambda>r. map_of r c = None \<or> r \<in> set (bucket_rows (heap e) (tree ix))) rs)"

text \<open>The columns of a definition that \<^verbatim>\<open>_create_table\<close> indexes.\<close>

definition indexed_columns :: "column list \<Rightarrow> string list" where
  "indexed_columns cols = map col_name (filter (\<lambda>c. is_primary c \<or> is_unique c) cols)"



text \<open>
  Whether a value is a string. Python orders numbers against numbers and strings
  against strings; \<open>py_lt\<close> raises \<open>TypeError\<close> exactly on a number and a string.
\<close>

fun is_text :: "scalar \<Rightarrow> bool" where
  "is_text (TextV s) = True"
| "is_text (IntV i) = False"
| "is_text (FloatV q) = False"

text \<open>
  The keys below a node are all strings (\<open>K\<close>) or all numbers (\<open>\<not> K\<close>), and every
  internal node has a key.
\<close>

fun kinded :: "bool \<Rightarrow> node \<Rightarrow> bool" where
  "kinded K (Node n lf ks cs vs nx) =
     (list_all (\<lambda>k. is_text k = K) ks \<and> (lf \<or> (ks \<noteq> [] \<and> list_all (kinded K) cs)))"

text \<open>The values that the rows holding a column have in it, in the order of the rows.\<close>

definition column_values :: "string \<Rightarrow> row list \<Rightarrow> scalar list" where
  "column_values c rs = List.map_filter (\<lambda>r. map_of r c) rs"

text \<open>Values that can be ordered against each other: all numbers, or all strings.\<close>

fun orderable :: "scalar list \<Rightarrow> bool" where
  "orderable [] = True"
| "orderable (v # vs) = list_all (\<lambda>u. is_text u = is_text v) vs"

text \<open>In each of the columns \<open>cs\<close>, the values held by the rows \<open>rs\<close> are orderable.\<close>

definition indexable :: "row list \<Rightarrow> string list \<Rightarrow> bool" where
  "indexable rs cs = list_all (\<lambda>c. orderable (column_values c rs)) cs"


section \<open>Example runs\<close>

definition row_n :: "int \<Rightarrow> row" where
  "row_n i = [(''id'', IntV i)]"

text \<open>Four rows folded into an empty index under the keys 1, 2, 3, 4.\<close>

definition four_keys :: "(scalar \<times> row) list" where
  "four_keys = [(IntV 1, row_n 1), (IntV 2, row_n 2), (IntV 3, row_n 3), (IntV 4, row_n 4)]"

text \<open>Two rows folded into an empty index under the same key 5.\<close>

definition same_key_twice :: "(scalar \<times> row) list" where
  "same_key_twice = [(IntV 5, row_n 1), (IntV 5, row_n 2)]"

text \<open>
  \<^verbatim>\<open>CREATE TABLE t (id INTEGER PRIMARY KEY, email TEXT UNIQUE)\<close> on a fresh engine with
  no files, then four inserts of an \<^verbatim>\<open>email\<close>.
\<close>

definition cols_t :: "column list" where
  "cols_t =
     [\<lparr>col_name = ''id'', col_type = ''INTEGER'', is_primary = True, is_unique = False\<rparr>,
      \<lparr>col_name = ''email'', col_type = ''TEXT'', is_primary = False, is_unique = True\<rparr>]"

definition e0 :: engine where "e0 = fst (new_engine None None)"

definition e1 :: engine where "e1 = fst (create_table e0 ''t'' cols_t)"

definition e2 :: engine where "e2 = fst (db_insert e1 ''t'' [''email''] [TextV ''a''])"

definition e3 :: engine where "e3 = fst (db_insert e2 ''t'' [''email''] [TextV ''b''])"

definition e4 :: engine where "e4 = fst (db_insert e3 ''t'' [''email''] [TextV ''c''])"

definition e5 :: engine where "e5 = fst (db_insert e4 ''t'' [''email''] [TextV ''d''])"

text \<open>The table \<open>t\<close> after the first two inserts.\<close>

definition t3 :: table where
  "t3 = \<lparr>name = ''t'', columns = cols_t,
          rows = [[(''id'', IntV 1), (''email'', TextV ''a'')],
                  [(''id'', IntV 2), (''email'', TextV ''b'')]],
          primary_key = Some ''id'', unique_columns = [''email''], next_id = 3\<rparr>"

text \<open>Two appends, \<^verbatim>\<open>clear()\<close>, a restart, and one more append.\<close>

definition clear_then_restart :: "wal_op list" where
  "clear_then_restart =
     [Append ''INSERT'' ''t'' (RowP []), Append ''INSERT'' ''t'' (RowP []), Clear, Restart,
      Append ''INSERT'' ''t'' (RowP [])]"

text \<open>An append, a restart, an append, \<^verbatim>\<open>clear()\<close>, and one more append.\<close>

definition restart_then_clear :: "wal_op list" where
  "restart_then_clear =
     [Append ''INSERT'' ''t'' (RowP []), Restart, Append ''INSERT'' ''t'' (RowP []), Clear,
      Append ''INSERT'' ''t'' (RowP [])]"

text \<open>
  The engine \<open>e3\<close> after \<^verbatim>\<open>INSERT INTO t (email) VALUES (1)\<close>: the insert raises
  \<open>TypeError\<close> while it updates the index on \<open>email\<close> (the number 1 cannot be ordered
  against the strings the index holds), after the row has been appended to the table.
\<close>

definition e3_mixed :: engine where
  "e3_mixed = fst (db_insert e3 ''t'' [''email''] [IntV 1])"

section \<open>C1: search after insertions\<close>

text \<open>
  C1 says that after any sequence of insertions made the way the engine maintains
  buckets, \<open>search key\<close> returns the bucket of the rows inserted under \<open>key\<close>. The code
  does not: after the keys 1, 2, 3, 4 the root has been split into the leaves \<open>[1, 2]\<close>
  and \<open>[3, 4]\<close> with the separator 3 copied up from the right leaf, and the descent by
  \<^verbatim>\<open>bisect_left\<close> sends the key 3 to the left leaf, where it is not found.
\<close>

theorem search_misses_inserted_key:
  "snd (index_rows [] (new_tree 4) four_keys) = None \<and>
   tree_root (snd (fst (index_rows [] (new_tree 4) four_keys))) =
     Node 1 False [IntV 3]
       [Node 0 True [IntV 1, IntV 2] [] [0, 1] (Some 2),
        Node 2 True [IntV 3, IntV 4] [] [2, 3] None] [] None \<and>
   search (snd (fst (index_rows [] (new_tree 4) four_keys))) (IntV 3) = Inr None"
  by code_simp

section \<open>C2: keys within a node\<close>

text \<open>
  C2 says that the keys of every node are sorted and unique, and that re-inserting an
  existing key creates no duplicate. The code inserts the key into the leaf again: after
  two rows under the key 5 the root leaf holds the key twice (both entries refer to the
  same bucket).
\<close>

theorem reinsert_duplicates_key:
  "snd (index_rows [] (new_tree 4) same_key_twice) = None \<and>
   keys (tree_root (snd (fst (index_rows [] (new_tree 4) same_key_twice)))) = [IntV 5, IntV 5] \<and>
   vals (tree_root (snd (fst (index_rows [] (new_tree 4) same_key_twice)))) = [0, 0]"
  by code_simp

section \<open>C3: index lookup against table scan\<close>

text \<open>
  C3 says that filtering through the registered index gives the rows a full scan gives.
  After four inserts into the table \<open>t\<close> the primary-key index misses the row with
  \<open>id = 3\<close>, which the scan finds.
\<close>

theorem index_filter_differs_from_scan:
  "snd (create_table e0 ''t'' cols_t) = None \<and>
   snd (db_insert e4 ''t'' [''email''] [TextV ''d'']) = Inr (Some (IntV 4)) \<and>
   map (\<lambda>(n, tb). (n, rows tb)) (tables e5) =
     [(''t'', [[(''id'', IntV 1), (''email'', TextV ''a'')],
               [(''id'', IntV 2), (''email'', TextV ''b'')],
               [(''id'', IntV 3), (''email'', TextV ''c'')],
               [(''id'', IntV 4), (''email'', TextV ''d'')]])] \<and>
   (case map_of (tables e5) ''t'' of
      None \<Rightarrow> False
    | Some tb \<Rightarrow>
        filter_rows e5 tb (rows tb) ''id'' (IntV 3) = Inr [] \<and>
        table_scan (rows tb) ''id'' (IntV 3) = [[(''id'', IntV 3), (''email'', TextV ''c'')]])"
  by code_simp

section \<open>C7: range queries\<close>

text \<open>
  C7 says that \<open>range_query\<close> returns the concatenation of the buckets of the inserted
  keys within the bounds. After two rows under the key 5 the leaf holds the key twice,
  and the scan appends the bucket once per entry: the two rows come back twice.
\<close>

theorem range_query_repeats_bucket:
  "snd (index_rows [] (new_tree 4) same_key_twice) = None \<and>
   range_query (fst (fst (index_rows [] (new_tree 4) same_key_twice)))
      (snd (fst (index_rows [] (new_tree 4) same_key_twice))) (IntV 5) (IntV 5)
     = Some (Inr [row_n 1, row_n 2, row_n 1, row_n 2])"
  by code_simp

section \<open>C4 and C9: an insert that violates a unique constraint\<close>

lemma map_update_same:
  "map_of al k = Some v \<Longrightarrow> f (k, v') = f (k, v) \<Longrightarrow> map f (AList.update k v' al) = map f al"
  by (induction al) (auto split: if_splits)

lemma violates_unique_next_id [simp]:
  "violates_unique (tb\<lparr>next_id := n\<rparr>) r = violates_unique tb r"
  by (simp add: violates_unique_def cong: option.case_cong)

lemma violates_uniqueI:
  assumes "uc \<in> set (unique_columns tb)" and "map_of r uc = Some v"
    and "r' \<in> set (rows tb)" and "map_of r' uc = Some v'" and "py_eq v' v"
  shows "violates_unique tb r"
  unfolding violates_unique_def list_ex_iff
  using assms by (auto simp: holds_value_def list_ex_iff intro!: bexI[of _ uc] bexI[of _ r'])

lemma e3_table: "map_of (tables e3) ''t'' = Some t3"
  by code_simp

text \<open>
  C4: when the row built by an insert holds, in a unique column of the table, a value
  that an existing row of the table holds in that column (equal by Python's \<open>==\<close>), the
  insert raises the constraint violation, and afterwards every table has the rows it
  had, and the log and the indexes are what they were.
\<close>

theorem insert_duplicate_unique_rejected:
  assumes "map_of (tables e) table_name = Some tb"
    and "unique_col \<in> set (unique_columns tb)"
    and "map_of (build_row tb cols vs) unique_col = Some v"
    and "existing_row \<in> set (rows tb)"
    and "map_of existing_row unique_col = Some v'"
    and "py_eq v' v"
  shows "snd (db_insert e table_name cols vs) = Inl ConstraintViolation \<and>
         map (\<lambda>(n, t). (n, rows t)) (tables (fst (db_insert e table_name cols vs))) =
           map (\<lambda>(n, t). (n, rows t)) (tables e) \<and>
         wal (fst (db_insert e table_name cols vs)) = wal e \<and>
         indexes (fst (db_insert e table_name cols vs)) = indexes e"
proof -
  have v: "violates_unique tb (build_row tb cols vs)"
    using assms(2-6) by (rule violates_uniqueI)
  show ?thesis
    using assms(1) v by (simp add: db_insert_def Let_def map_update_same)
qed

text \<open>The theorem on the engine \<open>e3\<close>: a third insert with the \<^verbatim>\<open>email\<close> of the first row.\<close>

theorem insert_duplicate_unique_rejected_witness:
  "map_of (tables e3) ''t'' = Some t3 \<and>
   ''email'' \<in> set (unique_columns t3) \<and>
   map_of (build_row t3 [''email''] [TextV ''a'']) ''email'' = Some (TextV ''a'') \<and>
   [(''id'', IntV 1), (''email'', TextV ''a'')] \<in> set (rows t3) \<and>
   map_of [(''id'', IntV 1), (''email'', TextV ''a'')] ''email'' = Some (TextV ''a'') \<and>
   py_eq (TextV ''a'') (TextV ''a'') \<and>
   snd (db_insert e3 ''t'' [''email''] [TextV ''a'']) = Inl ConstraintViolation \<and>
   map (\<lambda>(n, t). (n, rows t)) (tables (fst (db_insert e3 ''t'' [''email''] [TextV ''a'']))) =
     map (\<lambda>(n, t). (n, rows t)) (tables e3) \<and>
   wal (fst (db_insert e3 ''t'' [''email''] [TextV ''a''])) = wal e3 \<and>
   indexes (fst (db_insert e3 ''t'' [''email''] [TextV ''a''])) = indexes e3"
proof -
  have h2: "''email'' \<in> set (unique_columns t3)" by code_simp
  have h3: "map_of (build_row t3 [''email''] [TextV ''a'']) ''email'' = Some (TextV ''a'')"
    by code_simp
  have h4: "[(''id'', IntV 1), (''email'', TextV ''a'')] \<in> set (rows t3)" by code_simp
  have h5: "map_of [(''id'', IntV 1), (''email'', TextV ''a'')] ''email'' = Some (TextV ''a'')"
    by simp
  have h6: "py_eq (TextV ''a'') (TextV ''a'')" by simp
  show ?thesis
    using e3_table h2 h3 h4 h5 h6
      insert_duplicate_unique_rejected[OF e3_table h2 h3 h4 h5 h6]
    by blast
qed

text \<open>
  C9: when an insert into a table with a primary key omits the primary-key column and
  is rejected by the unique-constraint check, the table registered afterwards is the
  table as it was except that its next auto-increment value is one higher; no row was
  added, and the log is what it was.
\<close>

theorem rejected_insert_consumes_key:
  assumes "map_of (tables e) table_name = Some tb"
    and "primary_key tb = Some pk" and "pk \<noteq> []" and "pk \<notin> set cols"
    and "violates_unique tb (build_row tb cols vs)"
  shows "snd (db_insert e table_name cols vs) = Inl ConstraintViolation \<and>
         map_of (tables (fst (db_insert e table_name cols vs))) table_name =
           Some (tb\<lparr>next_id := next_id tb + 1\<rparr>) \<and>
         wal (fst (db_insert e table_name cols vs)) = wal e"
  using assms by (simp add: db_insert_def Let_def auto_key_def update_conv')

text \<open>The theorem on the same insert: the counter of \<open>t\<close> goes from 3 to 4.\<close>

theorem rejected_insert_consumes_key_witness:
  "map_of (tables e3) ''t'' = Some t3 \<and>
   primary_key t3 = Some ''id'' \<and> ''id'' \<noteq> [] \<and> ''id'' \<notin> set [''email''] \<and>
   violates_unique t3 (build_row t3 [''email''] [TextV ''a'']) \<and>
   snd (db_insert e3 ''t'' [''email''] [TextV ''a'']) = Inl ConstraintViolation \<and>
   map_of (tables (fst (db_insert e3 ''t'' [''email''] [TextV ''a'']))) ''t'' =
     Some (t3\<lparr>next_id := 4\<rparr>) \<and>
   wal (fst (db_insert e3 ''t'' [''email''] [TextV ''a''])) = wal e3"
proof -
  have h2: "primary_key t3 = Some ''id''" by code_simp
  have h3: "''id'' \<noteq> []" by simp
  have h4: "''id'' \<notin> set [''email'']" by simp
  have h5: "violates_unique t3 (build_row t3 [''email''] [TextV ''a''])" by code_simp
  have n: "next_id t3 + 1 = 4" by code_simp
  show ?thesis
    using e3_table h2 h3 h4 h5
      rejected_insert_consumes_key[OF e3_table h2 h3 h4 h5]
    unfolding n by blast
qed

section \<open>C6: log sequence numbers\<close>

lemma load_fold:
  "lsn_counter (fold (\<lambda>entry w. w\<lparr>entries := entries w @ [entry],
        lsn_counter := max (lsn_counter w) (lsn entry + 1)\<rparr>) es w)
     = fold (\<lambda>entry m. max m (lsn entry + 1)) es (lsn_counter w) \<and>
   wal_file (fold (\<lambda>entry w. w\<lparr>entries := entries w @ [entry],
        lsn_counter := max (lsn_counter w) (lsn entry + 1)\<rparr>) es w) = wal_file w"
  by (induction es arbitrary: w) auto

lemma load_wal_counter: "lsn_counter (load_wal f) = next_lsn (file_lines f)"
  using load_fold[of "file_lines f" "\<lparr>wal_file = f, entries = [], lsn_counter = 0, checkpoint_lsn = 0\<rparr>"]
  by (simp add: load_wal_def next_lsn_def file_lines_def)

lemma load_wal_file: "wal_file (load_wal f) = f"
  using load_fold[of "file_lines f" "\<lparr>wal_file = f, entries = [], lsn_counter = 0, checkpoint_lsn = 0\<rparr>"]
  by (simp add: load_wal_def file_lines_def)

lemma fold_max_Max:
  "fold (\<lambda>entry m. max m (lsn entry + 1)) es a = Max (insert a ((\<lambda>entry. lsn entry + 1) ` set es))"
proof (induction es arbitrary: a)
  case Nil
  show ?case by simp
next
  case (Cons e es)
  have "Max (insert (max a (lsn e + 1)) ((\<lambda>entry. lsn entry + 1) ` set es))
      = Max (insert a (insert (lsn e + 1) ((\<lambda>entry. lsn entry + 1) ` set es)))"
    by (cases "set es = {}") (auto simp: max.assoc max.commute max.left_commute)
  with Cons show ?case by simp
qed

lemma next_lsn_Max: "next_lsn es = Max (insert 0 ((\<lambda>entry. lsn entry + 1) ` set es))"
  by (simp add: next_lsn_def fold_max_Max)

lemma next_lsn_above: "e \<in> set es \<Longrightarrow> lsn e < next_lsn es"
proof -
  assume "e \<in> set es"
  then have "lsn e + 1 \<le> Max (insert 0 ((\<lambda>entry. lsn entry + 1) ` set es))"
    by (intro Max_ge) auto
  then show ?thesis by (simp add: next_lsn_Max)
qed

lemma next_lsn_nonneg: "0 \<le> next_lsn es"
  by (simp add: next_lsn_Max)

lemma next_lsn_snoc: "next_lsn (es @ [e]) = max (next_lsn es) (lsn e + 1)"
  by (simp add: next_lsn_def)

lemma wal_append_fields:
  "lsn_counter (fst (wal_append w opn tbl d)) = lsn_counter w + 1"
  "snd (wal_append w opn tbl d) = lsn_counter w"
  "file_lines (wal_file (fst (wal_append w opn tbl d))) =
     file_lines (wal_file w) @ [\<lparr>operation = opn, entry_table = tbl, payload_of = d, lsn = lsn_counter w\<rparr>]"
  by (auto simp: wal_append_def Let_def checkpoint_def persist_entry_def file_lines_def
      split: option.splits)

lemma run_wal_consecutive:
  assumes "restart_safe c ops"
    and "next_lsn (file_lines (wal_file w)) \<le> lsn_counter w"
    and "\<not> c \<Longrightarrow> next_lsn (file_lines (wal_file w)) = lsn_counter w"
  shows "run_wal w ops = map (\<lambda>i. lsn_counter w + int i) [0 ..< count_appends ops]"
  using assms
proof (induction ops arbitrary: w c)
  case Nil
  show ?case by simp
next
  case (Cons x ops)
  show ?case
  proof (cases x)
    case (Append opn tbl d)
    obtain w' l where wl: "wal_append w opn tbl d = (w', l)" by (cases "wal_append w opn tbl d")
    have c': "lsn_counter w' = lsn_counter w + 1" and l: "l = lsn_counter w"
      and f': "file_lines (wal_file w') = file_lines (wal_file w) @
         [\<lparr>operation = opn, entry_table = tbl, payload_of = d, lsn = lsn_counter w\<rparr>]"
      using wal_append_fields[of w opn tbl d] wl by simp_all
    have n: "next_lsn (file_lines (wal_file w')) = lsn_counter w'"
      using Cons.prems(2) by (simp add: f' c' next_lsn_snoc)
    have safe: "restart_safe False ops" using Cons.prems(1) Append by simp
    have "run_wal w' ops = map (\<lambda>i. lsn_counter w' + int i) [0 ..< count_appends ops]"
      by (rule Cons.IH[OF safe]) (simp_all add: n)
    then have "run_wal w (x # ops) =
        lsn_counter w # map (\<lambda>i. lsn_counter w + 1 + int i) [0 ..< count_appends ops]"
      using Append wl l c' by simp
    also have "\<dots> = map (\<lambda>i. lsn_counter w + int i) [0 ..< Suc (count_appends ops)]"
      by (simp add: upt_rec[of 0] map_Suc_upt[symmetric] del: upt_Suc)
    finally show ?thesis using Append by simp
  next
    case Clear
    have safe: "restart_safe True ops" using Cons.prems(1) Clear by simp
    have "run_wal (wal_clear w) ops =
        map (\<lambda>i. lsn_counter (wal_clear w) + int i) [0 ..< count_appends ops]"
    proof (rule Cons.IH[OF safe])
      have "0 \<le> lsn_counter w" using Cons.prems(2) next_lsn_nonneg[of "file_lines (wal_file w)"] by simp
      then show "next_lsn (file_lines (wal_file (wal_clear w))) \<le> lsn_counter (wal_clear w)"
        by (simp add: wal_clear_def file_lines_def next_lsn_def)
    qed simp
    then show ?thesis using Clear by (simp add: wal_clear_def)
  next
    case Restart
    have nc: "\<not> c" and safe: "restart_safe c ops" using Cons.prems(1) Restart by auto
    have eq: "lsn_counter (load_wal (wal_file w)) = lsn_counter w"
      using Cons.prems(3)[OF nc] by (simp add: load_wal_counter)
    have "run_wal (load_wal (wal_file w)) ops =
        map (\<lambda>i. lsn_counter (load_wal (wal_file w)) + int i) [0 ..< count_appends ops]"
      by (rule Cons.IH[OF safe]) (simp_all add: load_wal_counter load_wal_file)
    then show ?thesis using Restart eq by simp
  qed
qed

lemma sorted_consecutive: "sorted_wrt (<) (map (\<lambda>i. (a::int) + int i) [0 ..< n])"
  by (simp add: sorted_wrt_map sorted_wrt_iff_nth_less)

text \<open>
  C6, as amended: in every sequence of appends, \<^verbatim>\<open>clear()\<close> calls and restarts in which
  no restart follows a \<^verbatim>\<open>clear()\<close> before the next append, started on any persisted
  file, the LSNs returned by the appends are strictly increasing (so none is reused) and
  greater than every persisted LSN; and a reload sets the counter to one past the
  greatest persisted LSN, or to 0 when nothing is persisted.
\<close>

theorem wal_lsns_strictly_increasing:
  assumes "restart_safe False ops"
  shows "sorted_wrt (<) (run_wal (load_wal f) ops) \<and>
         (\<forall>l \<in> set (run_wal (load_wal f) ops). \<forall>e \<in> set (file_lines f). lsn e < l) \<and>
         lsn_counter (load_wal f) = Max (insert 0 ((\<lambda>e. lsn e + 1) ` set (file_lines f)))"
proof -
  have run: "run_wal (load_wal f) ops =
      map (\<lambda>i. lsn_counter (load_wal f) + int i) [0 ..< count_appends ops]"
    by (rule run_wal_consecutive[OF assms]) (simp_all add: load_wal_counter load_wal_file)
  have a: "sorted_wrt (<) (run_wal (load_wal f) ops)"
    unfolding run by (rule sorted_consecutive)
  have b: "\<forall>l \<in> set (run_wal (load_wal f) ops). \<forall>e \<in> set (file_lines f). lsn e < l"
    unfolding run using next_lsn_above[of _ "file_lines f"]
    by (fastforce simp: load_wal_counter)
  have c: "lsn_counter (load_wal f) = Max (insert 0 ((\<lambda>e. lsn e + 1) ` set (file_lines f)))"
    by (simp add: load_wal_counter next_lsn_Max)
  from a b c show ?thesis by blast
qed

text \<open>
  C6 as stated fails: \<^verbatim>\<open>clear()\<close> removes the persisted file, so a restart right after
  it finds nothing to resume from and starts at 0 again; the LSN 0 is returned twice.
\<close>

theorem lsn_reused_after_clear_and_restart:
  "run_wal (load_wal None) clear_then_restart = [0, 1, 0] \<and>
   \<not> sorted_wrt (<) (run_wal (load_wal None) clear_then_restart)"
  by code_simp

text \<open>The theorem on a run with a restart and a \<^verbatim>\<open>clear()\<close>, each followed by an append.\<close>

theorem wal_lsns_strictly_increasing_witness:
  "restart_safe False restart_then_clear \<and>
   run_wal (load_wal None) restart_then_clear = [0, 1, 2] \<and>
   sorted_wrt (<) (run_wal (load_wal None) restart_then_clear) \<and>
   lsn_counter (load_wal None) = 0"
proof -
  have h: "restart_safe False restart_then_clear" by code_simp
  have r: "run_wal (load_wal None) restart_then_clear = [0, 1, 2]" by code_simp
  show ?thesis
    using h r wal_lsns_strictly_increasing[OF h, of None] by (simp add: file_lines_def)
qed

section \<open>Well-shaped trees: insertion raises nothing but a type error\<close>

lemma py_lt_error: "py_lt a b = Inl e \<Longrightarrow> e = TypeError"
  by (cases "(a, b)" rule: py_lt.cases) auto

lemma bisect_loop_error: "bisect_loop a x lo hi = Inl e \<Longrightarrow> e = TypeError"
proof (induction a x lo hi rule: bisect_loop.induct)
  case (1 a x lo hi)
  have lt: "lo < hi"
    using "1.prems" by (subst (asm) bisect_loop.simps) (simp split: if_splits)
  show ?case
  proof (cases "py_lt (a ! ((lo + hi) div 2)) x")
    case (Inl e')
    then have "e = e'" using "1.prems" lt by (subst (asm) bisect_loop.simps) simp
    with Inl show ?thesis by (simp add: py_lt_error)
  next
    case (Inr b)
    show ?thesis
    proof (cases b)
      case True
      have "bisect_loop a x ((lo + hi) div 2 + 1) hi = Inl e"
        using "1.prems" lt Inr True by (subst (asm) bisect_loop.simps) simp
      then show ?thesis by (rule "1.IH"(1)[OF lt Inr True])
    next
      case False
      have "bisect_loop a x lo ((lo + hi) div 2) = Inl e"
        using "1.prems" lt Inr False by (subst (asm) bisect_loop.simps) simp
      then show ?thesis by (rule "1.IH"(2)[OF lt Inr False])
    qed
  qed
qed

lemma bisect_loop_bounds:
  "bisect_loop a x lo hi = Inr i \<Longrightarrow> lo \<le> hi \<Longrightarrow> lo \<le> i \<and> i \<le> hi"
proof (induction a x lo hi rule: bisect_loop.induct)
  case (1 a x lo hi)
  show ?case
  proof (cases "lo < hi")
    case False
    with "1.prems" show ?thesis by (subst (asm) bisect_loop.simps) simp
  next
    case True
    then obtain b where b: "py_lt (a ! ((lo + hi) div 2)) x = Inr b"
      using "1.prems"(1) by (subst (asm) bisect_loop.simps) (auto split: sum.splits)
    show ?thesis
    proof (cases b)
      case True
      have "bisect_loop a x ((lo + hi) div 2 + 1) hi = Inr i"
        using "1.prems"(1) \<open>lo < hi\<close> b True by (subst (asm) bisect_loop.simps) simp
      moreover have "(lo + hi) div 2 + 1 \<le> hi" "lo \<le> (lo + hi) div 2"
        using \<open>lo < hi\<close> by auto
      ultimately show ?thesis
        using "1.IH"(1)[OF \<open>lo < hi\<close> b True] by auto
    next
      case False
      have "bisect_loop a x lo ((lo + hi) div 2) = Inr i"
        using "1.prems"(1) \<open>lo < hi\<close> b False by (subst (asm) bisect_loop.simps) simp
      moreover have "lo \<le> (lo + hi) div 2" "(lo + hi) div 2 \<le> hi"
        using \<open>lo < hi\<close> by auto
      ultimately show ?thesis
        using "1.IH"(2)[OF \<open>lo < hi\<close> b False] by auto
    qed
  qed
qed

lemma bisect_left_error: "bisect_left ks key = Inl e \<Longrightarrow> e = TypeError"
  by (auto simp: bisect_left_def dest: bisect_loop_error)

lemma bisect_left_bound: "bisect_left ks key = Inr i \<Longrightarrow> i \<le> length ks"
  by (auto simp: bisect_left_def dest: bisect_loop_bounds)

lemma split_child_leaf4:
  assumes "i < length (children p)" and "is_leaf (children p ! i)"
    and "length (keys (children p ! i)) = 3"
  shows "split_child 4 fr p i =
    ((Node (nid p) (is_leaf p) (list_insert i (keys (children p ! i) ! 2) (keys p))
        (list_insert (Suc i)
           (Node fr True (drop 2 (keys (children p ! i))) [] (drop 2 (vals (children p ! i)))
              (nxt (children p ! i)))
           ((children p)[i := Node (nid (children p ! i)) True (take 2 (keys (children p ! i)))
              (children (children p ! i)) (take 2 (vals (children p ! i))) (Some fr)]))
        (vals p) (nxt p), Suc fr), None)"
  using assms by (simp add: split_child_def list_get_def Let_def)

lemma split_child_internal4:
  assumes "i < length (children p)" and "\<not> is_leaf (children p ! i)"
    and "length (keys (children p ! i)) = 3"
  shows "split_child 4 fr p i =
    ((Node (nid p) (is_leaf p) (list_insert i (keys (children p ! i) ! 1) (keys p))
        (list_insert (Suc i)
           (Node fr False (drop 2 (keys (children p ! i))) (drop 2 (children (children p ! i)))
              [] None)
           ((children p)[i := Node (nid (children p ! i)) False (take 1 (keys (children p ! i)))
              (take 2 (children (children p ! i))) (vals (children p ! i))
              (nxt (children p ! i))]))
        (vals p) (nxt p), Suc fr), None)"
proof -
  let ?ks = "keys (children p ! i)"
  obtain k0 k1 k2 where ks: "?ks = [k0, k1, k2]"
    using assms(3) by (auto simp: numeral_3_eq_3 length_Suc_conv)
  have ne: "take 2 ?ks \<noteq> []" and l: "last (take 2 ?ks) = ?ks ! 1"
    and b: "butlast (take 2 ?ks) = take 1 ?ks"
    unfolding ks by (simp_all add: numeral_2_eq_2)
  show ?thesis
    using assms ne l b by (simp add: split_child_def list_get_def Let_def)
qed

lemma list_insert_length [simp]: "length (list_insert i x xs) = Suc (length xs)"
  by (simp add: list_insert_def)

lemma list_insert_nth_same: "i \<le> length xs \<Longrightarrow> list_insert i x xs ! i = x"
  by (simp add: list_insert_def nth_append)

lemma list_insert_nth_before: "j < i \<Longrightarrow> i \<le> length xs \<Longrightarrow> list_insert i x xs ! j = xs ! j"
  by (simp add: list_insert_def nth_append)

lemma shaped_sel:
  "shaped c = (length (keys c) \<le> 3 \<and>
      (if is_leaf c then length (vals c) = length (keys c)
       else length (children c) = Suc (length (keys c)) \<and> list_all shaped (children c)))"
  by (cases c) simp

lemma list_all_take: "list_all P xs \<Longrightarrow> list_all P (take n xs)"
  by (auto simp: list_all_iff dest: in_set_takeD)

lemma list_all_drop: "list_all P xs \<Longrightarrow> list_all P (drop n xs)"
  by (auto simp: list_all_iff dest: in_set_dropD)

lemma list_all_update: "list_all P xs \<Longrightarrow> P y \<Longrightarrow> list_all P (xs[i := y])"
  by (auto simp: list_all_iff dest!: set_update_subset_insert[THEN subsetD])

lemma list_all_list_insert: "list_all P xs \<Longrightarrow> P y \<Longrightarrow> list_all P (list_insert i y xs)"
  by (auto simp: list_all_iff set_list_insert)

lemma leaf_vals_sel:
  "leaf_vals c = (if is_leaf c then vals c else concat (map leaf_vals (children c)))"
  by (cases c) simp

lemma set_concat_update:
  assumes "j < length cs" and "set (f y) = insert v (set (f (cs ! j)))"
  shows "set (concat (map f (cs[j := y]))) = insert v (set (concat (map f cs)))"
proof -
  have a: "cs[j := y] = take j cs @ y # drop (Suc j) cs"
    using assms(1) by (rule upd_conv_take_nth_drop)
  have b: "cs = take j cs @ cs ! j # drop (Suc j) cs"
    using assms(1) by (rule id_take_nth_drop)
  have "set (concat (map f (cs[j := y]))) =
      set (concat (map f (take j cs))) \<union> set (f y) \<union> set (concat (map f (drop (Suc j) cs)))"
    by (subst a) auto
  moreover have "set (concat (map f cs)) =
      set (concat (map f (take j cs))) \<union> set (f (cs ! j)) \<union> set (concat (map f (drop (Suc j) cs)))"
    by (subst b) auto
  ultimately show ?thesis using assms(2) by auto
qed

lemma concat_split_child:
  assumes "i < length cs" and "f y @ f z = f (cs ! i)"
  shows "concat (map f (list_insert (Suc i) z (cs[i := y]))) = concat (map f cs)"
proof -
  have a: "cs[i := y] = take i cs @ y # drop (Suc i) cs"
    using assms(1) by (rule upd_conv_take_nth_drop)
  have b: "cs = take i cs @ cs ! i # drop (Suc i) cs"
    using assms(1) by (rule id_take_nth_drop)
  have "list_insert (Suc i) z (cs[i := y]) = take i cs @ y # z # drop (Suc i) cs"
    using assms(1) by (simp add: list_insert_def a min_def take_Suc_conv_app_nth[symmetric]
        nth_append drop_Suc_Cons)
  then have "concat (map f (list_insert (Suc i) z (cs[i := y]))) =
      concat (map f (take i cs)) @ f (cs ! i) @ concat (map f (drop (Suc i) cs))"
    using assms(2) by simp
  also have "\<dots> = concat (map f cs)" by (subst (4) b) simp
  finally show ?thesis .
qed

text \<open>Splitting a full child of a node that is not full.\<close>

lemma split_child_shaped:
  assumes p: "shaped p" "\<not> is_leaf p" "length (keys p) < 3"
    and i: "i \<le> length (keys p)"
    and c: "length (keys (children p ! i)) \<ge> 3"
  obtains p' where "split_child 4 fr p i = ((p', Suc fr), None)"
    and "shaped p'" and "\<not> is_leaf p'" and "length (keys p') = Suc (length (keys p))"
    and "length (keys (children p' ! i)) < 3" and "length (keys (children p' ! Suc i)) < 3"
    and "leaf_vals p' = leaf_vals p"
proof -
  let ?c = "children p ! i"
  have il: "i < length (children p)" using p i by (simp add: shaped_sel)
  have all: "list_all shaped (children p)" using p by (simp add: shaped_sel)
  then have sc: "shaped ?c" using il by (simp add: list_all_length)
  then have k3: "length (keys ?c) = 3" using c by (simp add: shaped_sel)
  show ?thesis
  proof (cases "is_leaf ?c")
    case True
    let ?new = "Node fr True (drop 2 (keys ?c)) [] (drop 2 (vals ?c)) (nxt ?c)"
    let ?full = "Node (nid ?c) True (take 2 (keys ?c)) (children ?c) (take 2 (vals ?c)) (Some fr)"
    let ?kids = "list_insert (Suc i) ?new ((children p)[i := ?full])"
    let ?p' = "Node (nid p) (is_leaf p) (list_insert i (keys ?c ! 2) (keys p)) ?kids (vals p) (nxt p)"
    have vl: "length (vals ?c) = 3" using sc True k3 by (simp add: shaped_sel)
    have s1: "shaped ?new" using k3 vl by simp
    have s2: "shaped ?full" using k3 vl by simp
    have kids: "list_all shaped ?kids"
      by (intro list_all_list_insert list_all_update all s1 s2)
    have r: "split_child 4 fr p i = ((?p', Suc fr), None)"
      by (rule split_child_leaf4[OF il True k3])
    have n1: "?kids ! i = ?full"
      using il by (simp add: list_insert_nth_before)
    have n2: "?kids ! Suc i = ?new"
      using il by (simp add: list_insert_nth_same)
    show ?thesis
    proof (rule that[OF r])
      show "shaped ?p'" using p kids by (simp add: shaped_sel)
      show "\<not> is_leaf ?p'" using p by simp
      show "length (keys ?p') = Suc (length (keys p))" by simp
      show "length (keys (children ?p' ! i)) < 3" using n1 k3 by simp
      show "length (keys (children ?p' ! Suc i)) < 3" using n2 k3 by simp
      have "leaf_vals ?full @ leaf_vals ?new = leaf_vals ?c"
        using True by (simp add: leaf_vals_sel[of ?c])
      from concat_split_child[OF il, of leaf_vals, OF this]
      show "leaf_vals ?p' = leaf_vals p" using p by (simp add: leaf_vals_sel[of p])
    qed
  next
    case False
    let ?new = "Node fr False (drop 2 (keys ?c)) (drop 2 (children ?c)) [] None"
    let ?full = "Node (nid ?c) False (take 1 (keys ?c)) (take 2 (children ?c)) (vals ?c) (nxt ?c)"
    let ?kids = "list_insert (Suc i) ?new ((children p)[i := ?full])"
    let ?p' = "Node (nid p) (is_leaf p) (list_insert i (keys ?c ! 1) (keys p)) ?kids (vals p) (nxt p)"
    have cl: "length (children ?c) = 4" and ca: "list_all shaped (children ?c)"
      using sc False k3 by (simp_all add: shaped_sel)
    have s1: "shaped ?new" using k3 cl ca by (simp add: list_all_drop)
    have s2: "shaped ?full" using k3 cl ca by (simp add: list_all_take)
    have kids: "list_all shaped ?kids"
      by (intro list_all_list_insert list_all_update all s1 s2)
    have r: "split_child 4 fr p i = ((?p', Suc fr), None)"
      by (rule split_child_internal4[OF il False k3])
    have n1: "?kids ! i = ?full"
      using il by (simp add: list_insert_nth_before)
    have n2: "?kids ! Suc i = ?new"
      using il by (simp add: list_insert_nth_same)
    show ?thesis
    proof (rule that[OF r])
      show "shaped ?p'" using p kids by (simp add: shaped_sel)
      show "\<not> is_leaf ?p'" using p by simp
      show "length (keys ?p') = Suc (length (keys p))" by simp
      show "length (keys (children ?p' ! i)) < 3" using n1 k3 by simp
      show "length (keys (children ?p' ! Suc i)) < 3" using n2 k3 by simp
      have "concat (map leaf_vals (take 2 (children ?c))) @
            concat (map leaf_vals (drop 2 (children ?c))) = concat (map leaf_vals (children ?c))"
        by (simp add: concat_append[symmetric] map_append[symmetric] del: concat_append map_append)
      then have "leaf_vals ?full @ leaf_vals ?new = leaf_vals ?c"
        using False by (simp add: leaf_vals_sel[of ?c])
      from concat_split_child[OF il, of leaf_vals, OF this]
      show "leaf_vals ?p' = leaf_vals p" using p by (simp add: leaf_vals_sel[of p])
    qed
  qed
qed

lemma inf_leaf:
  "is_leaf node \<Longrightarrow> insert_non_full ord fr node key v =
     (case bisect_left (keys node) key of
        Inl e \<Rightarrow> ((node, fr), Some e)
      | Inr i \<Rightarrow>
          ((Node (nid node) (is_leaf node) (list_insert i key (keys node)) (children node)
              (list_insert i v (vals node)) (nxt node), fr), None))"
  by (subst insert_non_full.simps) simp

lemma inf_type_error:
  "bisect_left (keys node) key = Inl e \<Longrightarrow> insert_non_full ord fr node key v = ((node, fr), Some e)"
  by (subst insert_non_full.simps) simp

lemma inf_descend:
  "\<not> is_leaf node \<Longrightarrow> bisect_left (keys node) key = Inr i \<Longrightarrow>
   list_get (children node) i = Inr c \<Longrightarrow> \<not> ord - 1 \<le> length (keys c) \<Longrightarrow>
   insert_non_full ord fr node key v =
     (case insert_non_full ord fr c key v of
        ((c'', fr''), err) \<Rightarrow>
          ((Node (nid node) (is_leaf node) (keys node) ((children node)[i := c''])
              (vals node) (nxt node), fr''), err))"
  by (subst insert_non_full.simps) simp

lemma inf_split:
  "\<not> is_leaf node \<Longrightarrow> bisect_left (keys node) key = Inr i \<Longrightarrow>
   list_get (children node) i = Inr c \<Longrightarrow> ord - 1 \<le> length (keys c) \<Longrightarrow>
   split_child ord fr node i = ((node', fr'), None) \<Longrightarrow>
   list_get (keys node') i = Inr k \<Longrightarrow>
   insert_non_full ord fr node key v =
     (case py_gt key k of
        Inl e \<Rightarrow> ((node', fr'), Some e)
      | Inr b \<Rightarrow>
          (case list_get (children node') (if b then i + 1 else i) of
             Inl e \<Rightarrow> ((node', fr'), Some e)
           | Inr c' \<Rightarrow>
               (case insert_non_full ord fr' c' key v of
                  ((c'', fr''), err) \<Rightarrow>
                    ((Node (nid node') (is_leaf node') (keys node')
                        ((children node')[(if b then i + 1 else i) := c''])
                        (vals node') (nxt node'), fr''), err))))"
  by (subst insert_non_full.simps) simp

lemma py_gt_error: "py_gt a b = Inl e \<Longrightarrow> e = TypeError"
  by (simp add: py_gt_def py_lt_error)

text \<open>
  Inserting into a well-shaped node that is not full either raises \<open>TypeError\<close> or gives
  a well-shaped node that holds one more bucket reference.
\<close>

lemma insert_non_full_shaped:
  assumes "shaped node" and "length (keys node) < 3"
  shows "(snd (insert_non_full 4 fr node key v) = None \<or>
          snd (insert_non_full 4 fr node key v) = Some TypeError) \<and>
         (snd (insert_non_full 4 fr node key v) = None \<longrightarrow>
            shaped (fst (fst (insert_non_full 4 fr node key v))) \<and>
            set (leaf_vals (fst (fst (insert_non_full 4 fr node key v)))) =
              insert v (set (leaf_vals node)))"
  using assms
proof (induction node arbitrary: fr rule: measure_induct_rule[where f = size])
  case (less node)
  show ?case
  proof (cases "bisect_left (keys node) key")
    case (Inl e)
    then show ?thesis by (simp add: inf_type_error bisect_left_error)
  next
    case (Inr i)
    then have i: "i \<le> length (keys node)" by (rule bisect_left_bound)
    show ?thesis
    proof (cases "is_leaf node")
      case True
      then show ?thesis
        using less.prems Inr by (simp add: inf_leaf shaped_sel leaf_vals_sel set_list_insert)
    next
      case False
      have il: "i < length (children node)" and all: "list_all shaped (children node)"
        using less.prems False i by (simp_all add: shaped_sel)
      let ?c = "children node ! i"
      have g: "list_get (children node) i = Inr ?c" using il by (simp add: list_get_def)
      have sc: "shaped ?c" using all il by (simp add: list_all_length)
      show ?thesis
      proof (cases "length (keys ?c) \<ge> 3")
        case full: True
        from split_child_shaped[OF less.prems(1) False less.prems(2) i full, of fr]
        obtain p' where sp: "split_child 4 fr node i = ((p', Suc fr), None)"
          and p': "shaped p'" "\<not> is_leaf p'" "length (keys p') = Suc (length (keys node))"
          and nf: "length (keys (children p' ! i)) < 3" "length (keys (children p' ! Suc i)) < 3"
          and lv: "leaf_vals p' = leaf_vals node"
          by blast
        have gk: "list_get (keys p') i = Inr (keys p' ! i)"
          using p'(3) i by (simp add: list_get_def)
        have cl: "length (children p') = Suc (Suc (length (keys node)))"
          and all': "list_all shaped (children p')"
          using p' by (simp_all add: shaped_sel)
        note unf = inf_split[OF False Inr g _ sp gk, where v = v]
        show ?thesis
        proof (cases "py_gt key (keys p' ! i)")
          case (Inl e)
          then show ?thesis using unf full by (simp add: py_gt_error)
        next
          case b: (Inr b)
          let ?j = "if b then i + 1 else i"
          let ?c' = "children p' ! ?j"
          have jl: "?j < length (children p')" using cl i by simp
          have gc: "list_get (children p') ?j = Inr ?c'"
            using jl by (simp add: list_get_def)
          have sc': "shaped ?c'" using all' jl by (simp add: list_all_length)
          have nf': "length (keys ?c') < 3" using nf by simp
          have sz: "size ?c' < size node"
            using size_split_child[OF sp] jl by simp
          note IH = less.IH[OF sz sc' nf', of "Suc fr"]
          obtain c'' fr'' err where r: "insert_non_full 4 (Suc fr) ?c' key v = ((c'', fr''), err)"
            by (metis surj_pair)
          have res: "insert_non_full 4 fr node key v =
              ((Node (nid p') (is_leaf p') (keys p') ((children p')[?j := c''])
                  (vals p') (nxt p'), fr''), err)"
            using unf full b gc r by simp
          have e: "err = None \<or> err = Some TypeError" using IH r by simp
          have ok: "shaped (Node (nid p') (is_leaf p') (keys p') ((children p')[?j := c''])
                  (vals p') (nxt p')) \<and>
                set (leaf_vals (Node (nid p') (is_leaf p') (keys p') ((children p')[?j := c''])
                  (vals p') (nxt p'))) = insert v (set (leaf_vals node))" if "err = None"
          proof -
            have c'': "shaped c''" "set (leaf_vals c'') = insert v (set (leaf_vals ?c'))"
              using IH r that by simp_all
            have u: "set (concat (map leaf_vals ((children p')[?j := c'']))) =
                insert v (set (concat (map leaf_vals (children p'))))"
              using jl c''(2) by (rule set_concat_update)
            have old: "concat (map leaf_vals (children p')) = leaf_vals node"
              using lv p'(2) by (simp add: leaf_vals_sel[of p'])
            have new: "leaf_vals (Node (nid p') (is_leaf p') (keys p') ((children p')[?j := c''])
                  (vals p') (nxt p')) = concat (map leaf_vals ((children p')[?j := c'']))"
              using p'(2) by simp
            have sh: "shaped (Node (nid p') (is_leaf p') (keys p') ((children p')[?j := c''])
                  (vals p') (nxt p'))"
              using p' c''(1) all' by (simp add: shaped_sel[of p'] list_all_update)
            show ?thesis using sh u unfolding new old by blast
          qed
          show ?thesis unfolding res using e ok by auto
        qed
      next
        case notfull: False
        have sz: "size ?c < size node" using g by (rule size_child)
        have nf: "length (keys ?c) < 3" using notfull by simp
        note IH = less.IH[OF sz sc nf, of fr]
        obtain c'' fr'' err where r: "insert_non_full 4 fr ?c key v = ((c'', fr''), err)"
          by (metis surj_pair)
        have res: "insert_non_full 4 fr node key v =
            ((Node (nid node) (is_leaf node) (keys node) ((children node)[i := c''])
                (vals node) (nxt node), fr''), err)"
          using inf_descend[OF False Inr g, where ord = 4 and fr = fr and v = v] notfull r by simp
        have e: "err = None \<or> err = Some TypeError" using IH r by simp
        have ok: "shaped (Node (nid node) (is_leaf node) (keys node) ((children node)[i := c''])
                (vals node) (nxt node)) \<and>
              set (leaf_vals (Node (nid node) (is_leaf node) (keys node) ((children node)[i := c''])
                (vals node) (nxt node))) = insert v (set (leaf_vals node))" if "err = None"
        proof -
          have c'': "shaped c''" "set (leaf_vals c'') = insert v (set (leaf_vals ?c))"
            using IH r that by simp_all
          have u: "set (concat (map leaf_vals ((children node)[i := c'']))) =
              insert v (set (concat (map leaf_vals (children node))))"
            using il c''(2) by (rule set_concat_update)
          have old: "concat (map leaf_vals (children node)) = leaf_vals node"
            using False by (simp add: leaf_vals_sel[of node])
          have new: "leaf_vals (Node (nid node) (is_leaf node) (keys node)
                ((children node)[i := c'']) (vals node) (nxt node)) =
              concat (map leaf_vals ((children node)[i := c'']))"
            using False by simp
          have sh: "shaped (Node (nid node) (is_leaf node) (keys node)
                ((children node)[i := c'']) (vals node) (nxt node))"
            using less.prems False c''(1) all
            by (simp add: shaped_sel[of node] list_all_update)
          show ?thesis using sh u unfolding new old by blast
        qed
        show ?thesis unfolding res using e ok by auto
      qed
    qed
  qed
qed

lemma tree_ok_new [simp]: "tree_ok (new_tree 4)"
  by (simp add: tree_ok_def new_tree_def)

lemma tree_insert_ok:
  assumes "tree_ok t"
  shows "(snd (tree_insert t key v) = None \<or> snd (tree_insert t key v) = Some TypeError) \<and>
         (snd (tree_insert t key v) = None \<longrightarrow>
            tree_ok (fst (tree_insert t key v)) \<and>
            set (leaf_vals (tree_root (fst (tree_insert t key v)))) =
              insert v (set (leaf_vals (tree_root t))))"
proof (cases "length (keys (tree_root t)) \<ge> 3")
  case True
  let ?nr = "Node (fresh t) False [] [tree_root t] [] None"
  have s: "shaped ?nr" using assms by (simp add: tree_ok_def)
  from split_child_shaped[OF s, of 0 "Suc (fresh t)"] True
  obtain p' where sp: "split_child 4 (Suc (fresh t)) ?nr 0 = ((p', Suc (Suc (fresh t))), None)"
    and p': "shaped p'" "length (keys p') = Suc 0" and lv: "leaf_vals p' = leaf_vals ?nr"
    by auto
  obtain r fr' err where r: "insert_non_full 4 (Suc (Suc (fresh t))) p' key v = ((r, fr'), err)"
    by (metis surj_pair)
  have res: "tree_insert t key v = (t\<lparr>tree_root := r, fresh := fr'\<rparr>, err)"
    using assms True sp r by (simp add: tree_insert_def tree_ok_def)
  have "length (keys p') < 3" using p'(2) by simp
  from insert_non_full_shaped[OF p'(1) this, of "Suc (Suc (fresh t))" key v] r lv
  show ?thesis unfolding res using assms by (auto simp: tree_ok_def)
next
  case False
  obtain r fr' err where r: "insert_non_full 4 (fresh t) (tree_root t) key v = ((r, fr'), err)"
    by (metis surj_pair)
  have res: "tree_insert t key v = (t\<lparr>tree_root := r, fresh := fr'\<rparr>, err)"
    using assms False r by (simp add: tree_insert_def tree_ok_def)
  have "shaped (tree_root t)" "length (keys (tree_root t)) < 3"
    using assms False by (simp_all add: tree_ok_def)
  from insert_non_full_shaped[OF this, of "fresh t" key v] r
  show ?thesis unfolding res using assms by (auto simp: tree_ok_def)
qed

lemma find_leaf_shaped:
  assumes "shaped node"
  shows "(case find_leaf node key of
            Inl e \<Rightarrow> e = TypeError
          | Inr leaf \<Rightarrow> shaped leaf \<and> is_leaf leaf \<and> set (vals leaf) \<subseteq> set (leaf_vals node))"
  using assms
proof (induction node key rule: find_leaf.induct)
  case (1 n lf ks cs vs nx key)
  show ?case
  proof (cases lf)
    case True
    then show ?thesis using "1.prems" by simp
  next
    case False
    show ?thesis
    proof (cases "bisect_left ks key")
      case (Inl e)
      then show ?thesis using False by (simp add: bisect_left_error)
    next
      case (Inr i)
      then have "i \<le> length ks" by (rule bisect_left_bound)
      then have il: "i < length cs" using "1.prems" False by simp
      then have g: "list_get cs i = Inr (cs ! i)" by (simp add: list_get_def)
      have sc: "shaped (cs ! i)" using "1.prems" False il by (simp add: list_all_length)
      have sub: "set (leaf_vals (cs ! i)) \<subseteq> set (concat (map leaf_vals cs))"
        using il by (auto intro!: bexI[of _ "cs ! i"])
      from "1.IH"[OF False Inr g sc] sub
      show ?thesis using False Inr g by (auto split: sum.splits)
    qed
  qed
qed

lemma index_of_bound: "index_of ks key = Some idx \<Longrightarrow> idx < length ks"
  by (induction ks arbitrary: idx) (auto split: if_splits)

lemma search_ok:
  assumes "tree_ok t"
  shows "(case search t key of
            Inl e \<Rightarrow> e = TypeError
          | Inr None \<Rightarrow> True
          | Inr (Some a) \<Rightarrow> a \<in> set (leaf_vals (tree_root t)))"
proof -
  have s: "shaped (tree_root t)" using assms by (simp add: tree_ok_def)
  show ?thesis
  proof (cases "find_leaf (tree_root t) key")
    case (Inl e)
    with find_leaf_shaped[OF s, of key] show ?thesis by (simp add: search_def)
  next
    case (Inr leaf)
    with find_leaf_shaped[OF s, of key]
    have l: "shaped leaf" "is_leaf leaf" "set (vals leaf) \<subseteq> set (leaf_vals (tree_root t))"
      by simp_all
    show ?thesis
    proof (cases "index_of (keys leaf) key")
      case None
      then show ?thesis using Inr by (simp add: search_def)
    next
      case (Some idx)
      then have "idx < length (vals leaf)"
        using l(1,2) index_of_bound[OF Some] by (simp add: shaped_sel)
      then show ?thesis using Inr Some l(3) by (auto simp: search_def list_get_def)
    qed
  qed
qed

lemma heap_le_refl [simp]: "heap_le h h"
  by (simp add: heap_le_def)

lemma heap_le_trans: "heap_le h1 h2 \<Longrightarrow> heap_le h2 h3 \<Longrightarrow> heap_le h1 h3"
  by (auto simp: heap_le_def)

lemma heap_le_alloc: "heap_le h (h @ [[]])"
  by (auto simp: heap_le_def deref_def nth_append)

lemma heap_le_append: "heap_le h (h[a := deref h a @ [r]])"
  by (auto simp: heap_le_def deref_def nth_list_update)

lemma bucket_rows_mono: "heap_le h h' \<Longrightarrow> set (bucket_rows h t) \<subseteq> set (bucket_rows h' t)"
  by (auto simp: bucket_rows_def heap_le_def)

lemma index_row_ok:
  assumes "tree_ok t"
  shows "(snd (index_row h t v r) = None \<or> snd (index_row h t v r) = Some TypeError) \<and>
         heap_le h (fst (fst (index_row h t v r))) \<and>
         (snd (index_row h t v r) = None \<longrightarrow>
            tree_ok (snd (fst (index_row h t v r))) \<and>
            r \<in> set (bucket_rows (fst (fst (index_row h t v r))) (snd (fst (index_row h t v r)))) \<and>
            set (bucket_rows h t) \<subseteq>
              set (bucket_rows (fst (fst (index_row h t v r))) (snd (fst (index_row h t v r)))))"
proof (cases "search t v")
  case (Inl e)
  with search_ok[OF assms, of v] show ?thesis by (simp add: index_row_def)
next
  case (Inr found)
  define a where "a = (case found of None \<Rightarrow> length h
                        | Some a \<Rightarrow> if deref h a = [] then length h else a)"
  define h1 where "h1 = (case found of None \<Rightarrow> h @ [[]]
                         | Some a \<Rightarrow> if deref h a = [] then h @ [[]] else h)"
  define h2 where "h2 = h1[a := deref h1 a @ [r]]"
  obtain t' err where ti: "tree_insert t v a = (t', err)" by (cases "tree_insert t v a")
  have sel: "(case found of None \<Rightarrow> (length h, h @ [[]])
              | Some a \<Rightarrow> if deref h a = [] then (length h, h @ [[]]) else (a, h)) = (a, h1)"
    by (simp add: a_def h1_def split: option.splits)
  have res: "index_row h t v r = ((h2, t'), err)"
    using Inr ti by (simp add: index_row_def sel h2_def)
  have al: "a < length h1"
    by (auto simp: a_def h1_def deref_def split: option.splits if_splits)
  have le1: "heap_le h h1"
    by (auto simp: h1_def heap_le_alloc split: option.splits)
  have le2: "heap_le h1 h2" unfolding h2_def by (rule heap_le_append)
  have le: "heap_le h h2" using le1 le2 by (rule heap_le_trans)
  have rin: "r \<in> set (deref h2 a)" using al by (simp add: h2_def deref_def)
  from tree_insert_ok[OF assms, of v a] ti
  have e: "err = None \<or> err = Some TypeError"
    and ok: "err = None \<Longrightarrow> tree_ok t' \<and>
        set (leaf_vals (tree_root t')) = insert a (set (leaf_vals (tree_root t)))"
    by simp_all
  have post: "tree_ok t' \<and> r \<in> set (bucket_rows h2 t') \<and>
      set (bucket_rows h t) \<subseteq> set (bucket_rows h2 t')" if "err = None"
  proof -
    from ok[OF that] have t'ok: "tree_ok t'"
      and lv: "set (leaf_vals (tree_root t')) = insert a (set (leaf_vals (tree_root t)))"
      by simp_all
    have "r \<in> set (bucket_rows h2 t')" using rin lv by (auto simp: bucket_rows_def)
    moreover have "set (bucket_rows h t) \<subseteq> set (bucket_rows h2 t')"
      using le lv by (auto simp: bucket_rows_def heap_le_def)
    ultimately show ?thesis using t'ok by simp
  qed
  show ?thesis unfolding res using e le post by auto
qed

lemma build_index_ok:
  assumes "tree_ok t"
  shows "(snd (build_index h t c rs) = None \<or> snd (build_index h t c rs) = Some TypeError) \<and>
         heap_le h (fst (fst (build_index h t c rs))) \<and>
         (snd (build_index h t c rs) = None \<longrightarrow>
            tree_ok (snd (fst (build_index h t c rs))) \<and>
            set (bucket_rows h t) \<subseteq>
              set (bucket_rows (fst (fst (build_index h t c rs))) (snd (fst (build_index h t c rs)))) \<and>
            (\<forall>r \<in> set rs. map_of r c \<noteq> None \<longrightarrow>
               r \<in> set (bucket_rows (fst (fst (build_index h t c rs)))
                          (snd (fst (build_index h t c rs))))))"
  using assms
proof (induction rs arbitrary: h t)
  case Nil
  then show ?case by simp
next
  case (Cons r rs)
  show ?case
  proof (cases "map_of r c")
    case None
    with Cons.IH[OF Cons.prems, of h] show ?thesis by simp
  next
    case (Some v)
    obtain h' t' err where ir: "index_row h t v r = ((h', t'), err)"
      by (metis surj_pair)
    from index_row_ok[OF Cons.prems, of h v r] ir
    have e: "err = None \<or> err = Some TypeError" and le: "heap_le h h'"
      and ok: "err = None \<Longrightarrow> tree_ok t' \<and> r \<in> set (bucket_rows h' t') \<and>
          set (bucket_rows h t) \<subseteq> set (bucket_rows h' t')"
      by simp_all
    show ?thesis
    proof (cases err)
      case (Some e')
      then show ?thesis using Some \<open>map_of r c = Some v\<close> ir e le by simp
    next
      case None
      from ok[OF None] have t': "tree_ok t'" and rin: "r \<in> set (bucket_rows h' t')"
        and sub: "set (bucket_rows h t) \<subseteq> set (bucket_rows h' t')" by simp_all
      have res: "build_index h t c (r # rs) = build_index h' t' c rs"
        using \<open>map_of r c = Some v\<close> ir None by simp
      from Cons.IH[OF t', of h'] le rin sub
      show ?thesis unfolding res by (auto intro: heap_le_trans)
    qed
  qed
qed

section \<open>Keys of one kind: when an index build raises\<close>

text \<open>
  Into a tree whose keys are all numbers, or all strings, a key of the same kind is
  inserted without an exception, and a key of the other kind raises \<open>TypeError\<close> at the
  first comparison. So the loop of \<^verbatim>\<open>_create_index\<close> over the rows of a table succeeds
  exactly when the values of the column are orderable.
\<close>

lemma py_lt_same_kind: "is_text a = is_text b \<Longrightarrow> \<exists>r. py_lt a b = Inr r"
  by (cases a; cases b) auto

lemma py_lt_diff_kind: "is_text a \<noteq> is_text b \<Longrightarrow> py_lt a b = Inl TypeError"
  by (cases a; cases b) auto

lemma bisect_loop_same_kind:
  "list_all (\<lambda>k. is_text k = is_text x) a \<Longrightarrow> hi \<le> length a \<Longrightarrow> \<exists>i. bisect_loop a x lo hi = Inr i"
proof (induction a x lo hi rule: bisect_loop.induct)
  case (1 a x lo hi)
  show ?case
  proof (cases "lo < hi")
    case False
    then show ?thesis by (subst bisect_loop.simps) simp
  next
    case True
    then have m: "(lo + hi) div 2 < length a" using "1.prems"(2) by auto
    then have "is_text (a ! ((lo + hi) div 2)) = is_text x"
      using "1.prems"(1) by (simp add: list_all_length)
    then obtain b where b: "py_lt (a ! ((lo + hi) div 2)) x = Inr b"
      using py_lt_same_kind by blast
    have h2: "(lo + hi) div 2 \<le> length a" using m by simp
    show ?thesis
    proof (cases b)
      case True
      from "1.IH"(1)[OF \<open>lo < hi\<close> b True "1.prems"]
      show ?thesis using \<open>lo < hi\<close> b True by (subst bisect_loop.simps) simp
    next
      case False
      from "1.IH"(2)[OF \<open>lo < hi\<close> b False "1.prems"(1) h2]
      show ?thesis using \<open>lo < hi\<close> b False by (subst bisect_loop.simps) simp
    qed
  qed
qed

lemma bisect_left_same_kind:
  "list_all (\<lambda>k. is_text k = is_text x) ks \<Longrightarrow> \<exists>i. bisect_left ks x = Inr i"
  by (simp add: bisect_left_def bisect_loop_same_kind)

lemma bisect_left_diff_kind:
  assumes "ks \<noteq> []" and "list_all (\<lambda>k. is_text k = K) ks" and "is_text x \<noteq> K"
  shows "bisect_left ks x = Inl TypeError"
proof -
  have m: "(0 + length ks) div 2 < length ks" using assms(1) by simp
  then have "is_text (ks ! ((0 + length ks) div 2)) = K"
    using assms(2) by (simp add: list_all_length)
  then have "py_lt (ks ! ((0 + length ks) div 2)) x = Inl TypeError"
    using assms(3) by (intro py_lt_diff_kind) auto
  then show ?thesis
    unfolding bisect_left_def using assms(1) by (subst bisect_loop.simps) simp
qed

lemma kinded_sel:
  "kinded K c = (list_all (\<lambda>k. is_text k = K) (keys c) \<and>
      (is_leaf c \<or> (keys c \<noteq> [] \<and> list_all (kinded K) (children c))))"
  by (cases c) simp

lemma list_insert_nonempty [simp]: "list_insert i x xs \<noteq> []"
  by (simp add: list_insert_def)

lemma split_child_kinded:
  assumes p: "shaped p" "\<not> is_leaf p" "length (keys p) < 3"
    and i: "i \<le> length (keys p)"
    and c: "length (keys (children p ! i)) \<ge> 3"
    and kp: "list_all (\<lambda>k. is_text k = K) (keys p)"
    and kc: "list_all (kinded K) (children p)"
  shows "kinded K (fst (fst (split_child 4 fr p i)))"
proof -
  let ?c = "children p ! i"
  have il: "i < length (children p)" using p i by (simp add: shaped_sel)
  have all: "list_all shaped (children p)" using p by (simp add: shaped_sel)
  then have sc: "shaped ?c" using il by (simp add: list_all_length)
  then have k3: "length (keys ?c) = 3" using c by (simp add: shaped_sel)
  have kdc: "kinded K ?c" using kc il by (simp add: list_all_length)
  then have ck: "list_all (\<lambda>k. is_text k = K) (keys ?c)" by (simp add: kinded_sel)
  then have k1: "is_text (keys ?c ! 1) = K" and k2: "is_text (keys ?c ! 2) = K"
    using k3 by (simp_all add: list_all_length)
  show ?thesis
  proof (cases "is_leaf ?c")
    case True
    let ?new = "Node fr True (drop 2 (keys ?c)) [] (drop 2 (vals ?c)) (nxt ?c)"
    let ?full = "Node (nid ?c) True (take 2 (keys ?c)) (children ?c) (take 2 (vals ?c)) (Some fr)"
    have s1: "kinded K ?new" using ck by (simp add: list_all_drop)
    have s2: "kinded K ?full" using ck by (simp add: list_all_take)
    have kids: "list_all (kinded K) (list_insert (Suc i) ?new ((children p)[i := ?full]))"
      by (intro list_all_list_insert list_all_update kc s1 s2)
    have keys: "list_all (\<lambda>k. is_text k = K) (list_insert i (keys ?c ! 2) (keys p))"
      by (intro list_all_list_insert kp k2)
    show ?thesis
      unfolding split_child_leaf4[OF il True k3] using kids keys by simp
  next
    case False
    let ?new = "Node fr False (drop 2 (keys ?c)) (drop 2 (children ?c)) [] None"
    let ?full = "Node (nid ?c) False (take 1 (keys ?c)) (take 2 (children ?c)) (vals ?c) (nxt ?c)"
    have cc: "list_all (kinded K) (children ?c)" using kdc False by (simp add: kinded_sel)
    have s1: "kinded K ?new" using ck cc k3 by (simp add: list_all_drop)
    have ne: "take 1 (keys ?c) \<noteq> []" using k3 by auto
    have s2: "kinded K ?full" using ck cc ne by (simp add: list_all_take del: take_eq_Nil)
    have kids: "list_all (kinded K) (list_insert (Suc i) ?new ((children p)[i := ?full]))"
      by (intro list_all_list_insert list_all_update kc s1 s2)
    have keys: "list_all (\<lambda>k. is_text k = K) (list_insert i (keys ?c ! 1) (keys p))"
      by (intro list_all_list_insert kp k1)
    show ?thesis
      unfolding split_child_internal4[OF il False k3] using kids keys by simp
  qed
qed

text \<open>
  Inserting a key into a well-shaped node that is not full, all of whose keys are of the
  kind of the new key, raises nothing.
\<close>

lemma insert_non_full_kinded:
  assumes "shaped node" and "length (keys node) < 3" and "kinded K node" and "is_text key = K"
  shows "snd (insert_non_full 4 fr node key v) = None \<and>
         kinded K (fst (fst (insert_non_full 4 fr node key v))) \<and>
         keys (fst (fst (insert_non_full 4 fr node key v))) \<noteq> []"
  using assms(1-3)
proof (induction node arbitrary: fr rule: measure_induct_rule[where f = size])
  case (less node)
  have nk: "list_all (\<lambda>k. is_text k = is_text key) (keys node)"
    using less.prems(3) assms(4) by (simp add: kinded_sel)
  then obtain i where Inr: "bisect_left (keys node) key = Inr i"
    using bisect_left_same_kind by blast
  then have i: "i \<le> length (keys node)" by (rule bisect_left_bound)
  show ?case
  proof (cases "is_leaf node")
    case True
    then show ?thesis
      using less.prems Inr nk assms(4) by (simp add: inf_leaf list_all_list_insert)
  next
    case False
    have il: "i < length (children node)" and all: "list_all shaped (children node)"
      using less.prems False i by (simp_all add: shaped_sel)
    have kall: "list_all (kinded K) (children node)" and kne: "keys node \<noteq> []"
      and kk: "list_all (\<lambda>k. is_text k = K) (keys node)"
      using less.prems(3) False by (simp_all add: kinded_sel)
    let ?c = "children node ! i"
    have g: "list_get (children node) i = Inr ?c" using il by (simp add: list_get_def)
    have sc: "shaped ?c" using all il by (simp add: list_all_length)
    show ?thesis
    proof (cases "length (keys ?c) \<ge> 3")
      case full: True
      from split_child_shaped[OF less.prems(1) False less.prems(2) i full, of fr]
      obtain p' where sp: "split_child 4 fr node i = ((p', Suc fr), None)"
        and p': "shaped p'" "\<not> is_leaf p'" "length (keys p') = Suc (length (keys node))"
        and nf: "length (keys (children p' ! i)) < 3" "length (keys (children p' ! Suc i)) < 3"
        by blast
      have kp': "kinded K p'"
        using split_child_kinded[OF less.prems(1) False less.prems(2) i full kk kall, of fr] sp
        by simp
      then have pk: "list_all (\<lambda>k. is_text k = K) (keys p')" "keys p' \<noteq> []"
        and pc: "list_all (kinded K) (children p')"
        using p'(2) by (simp_all add: kinded_sel)
      have gk: "list_get (keys p') i = Inr (keys p' ! i)"
        using p'(3) i by (simp add: list_get_def)
      have cl: "length (children p') = Suc (Suc (length (keys node)))"
        and all': "list_all shaped (children p')"
        using p' by (simp_all add: shaped_sel)
      note unf = inf_split[OF False Inr g _ sp gk, where v = v]
      have "is_text (keys p' ! i) = is_text key"
        using pk(1) p'(3) i assms(4) by (simp add: list_all_length)
      then obtain b where b: "py_gt key (keys p' ! i) = Inr b"
        using py_lt_same_kind[of "keys p' ! i" key] by (auto simp: py_gt_def)
      let ?j = "if b then i + 1 else i"
      let ?c' = "children p' ! ?j"
      have jl: "?j < length (children p')" using cl i by simp
      have gc: "list_get (children p') ?j = Inr ?c'"
        using jl by (simp add: list_get_def)
      have sc': "shaped ?c'" using all' jl by (simp add: list_all_length)
      have kc': "kinded K ?c'" using pc jl by (simp add: list_all_length)
      have nf': "length (keys ?c') < 3" using nf by simp
      have sz: "size ?c' < size node"
        using size_split_child[OF sp] jl by simp
      note IH = less.IH[OF sz sc' nf' kc', of "Suc fr"]
      obtain c'' fr'' err where r: "insert_non_full 4 (Suc fr) ?c' key v = ((c'', fr''), err)"
        by (metis surj_pair)
      have res: "insert_non_full 4 fr node key v =
          ((Node (nid p') (is_leaf p') (keys p') ((children p')[?j := c''])
              (vals p') (nxt p'), fr''), err)"
        using unf full b gc r by simp
      have "err = None" "kinded K c''" using IH r by simp_all
      then show ?thesis
        unfolding res using pk pc p'(2) by (simp add: list_all_update)
    next
      case notfull: False
      have sz: "size ?c < size node" using g by (rule size_child)
      have nf: "length (keys ?c) < 3" using notfull by simp
      have kc: "kinded K ?c" using kall il by (simp add: list_all_length)
      note IH = less.IH[OF sz sc nf kc, of fr]
      obtain c'' fr'' err where r: "insert_non_full 4 fr ?c key v = ((c'', fr''), err)"
        by (metis surj_pair)
      have res: "insert_non_full 4 fr node key v =
          ((Node (nid node) (is_leaf node) (keys node) ((children node)[i := c''])
              (vals node) (nxt node), fr''), err)"
        using inf_descend[OF False Inr g, where ord = 4 and fr = fr and v = v] notfull r by simp
      have "err = None" "kinded K c''" using IH r by simp_all
      then show ?thesis
        unfolding res using kk kne kall False by (simp add: list_all_update)
    qed
  qed
qed

lemma tree_insert_kinded:
  assumes "tree_ok t" and "kinded K (tree_root t)" and "is_text key = K"
  shows "snd (tree_insert t key v) = None \<and>
         kinded K (tree_root (fst (tree_insert t key v))) \<and>
         keys (tree_root (fst (tree_insert t key v))) \<noteq> []"
proof (cases "length (keys (tree_root t)) \<ge> 3")
  case True
  let ?nr = "Node (fresh t) False [] [tree_root t] [] None"
  have s: "shaped ?nr" using assms(1) by (simp add: tree_ok_def)
  from split_child_shaped[OF s, of 0 "Suc (fresh t)"] True
  obtain p' where sp: "split_child 4 (Suc (fresh t)) ?nr 0 = ((p', Suc (Suc (fresh t))), None)"
    and p': "shaped p'" "length (keys p') = Suc 0"
    by auto
  have kp: "kinded K p'"
    using split_child_kinded[OF s, of 0 K "Suc (fresh t)"] True assms(2) sp by simp
  obtain r fr' err where r: "insert_non_full 4 (Suc (Suc (fresh t))) p' key v = ((r, fr'), err)"
    by (metis surj_pair)
  have res: "tree_insert t key v = (t\<lparr>tree_root := r, fresh := fr'\<rparr>, err)"
    using assms(1) True sp r by (simp add: tree_insert_def tree_ok_def)
  have "length (keys p') < 3" using p'(2) by simp
  from insert_non_full_kinded[OF p'(1) this kp assms(3), of "Suc (Suc (fresh t))" v] r
  show ?thesis unfolding res by simp
next
  case False
  obtain r fr' err where r: "insert_non_full 4 (fresh t) (tree_root t) key v = ((r, fr'), err)"
    by (metis surj_pair)
  have res: "tree_insert t key v = (t\<lparr>tree_root := r, fresh := fr'\<rparr>, err)"
    using assms(1) False r by (simp add: tree_insert_def tree_ok_def)
  have "shaped (tree_root t)" "length (keys (tree_root t)) < 3"
    using assms(1) False by (simp_all add: tree_ok_def)
  from insert_non_full_kinded[OF this assms(2,3), of "fresh t" v] r
  show ?thesis unfolding res by simp
qed

lemma tree_insert_type_error:
  assumes "tree_ok t" and "kinded K (tree_root t)" and "keys (tree_root t) \<noteq> []"
    and "is_text key \<noteq> K"
  shows "snd (tree_insert t key v) = Some TypeError"
proof (cases "length (keys (tree_root t)) \<ge> 3")
  case True
  let ?nr = "Node (fresh t) False [] [tree_root t] [] None"
  have s: "shaped ?nr" using assms(1) by (simp add: tree_ok_def)
  from split_child_shaped[OF s, of 0 "Suc (fresh t)"] True
  obtain p' where sp: "split_child 4 (Suc (fresh t)) ?nr 0 = ((p', Suc (Suc (fresh t))), None)"
    and p': "\<not> is_leaf p'"
    by auto
  have kp: "kinded K p'"
    using split_child_kinded[OF s, of 0 K "Suc (fresh t)"] True assms(2) sp by simp
  then have "keys p' \<noteq> []" "list_all (\<lambda>k. is_text k = K) (keys p')"
    using p' by (simp_all add: kinded_sel)
  then have "bisect_left (keys p') key = Inl TypeError"
    using assms(4) by (rule bisect_left_diff_kind)
  then have "insert_non_full 4 (Suc (Suc (fresh t))) p' key v =
      ((p', Suc (Suc (fresh t))), Some TypeError)"
    by (rule inf_type_error)
  then show ?thesis
    using assms(1) True sp by (simp add: tree_insert_def tree_ok_def)
next
  case False
  have "list_all (\<lambda>k. is_text k = K) (keys (tree_root t))"
    using assms(2) by (simp add: kinded_sel)
  with assms(3) have "bisect_left (keys (tree_root t)) key = Inl TypeError"
    using assms(4) by (rule bisect_left_diff_kind)
  then have "insert_non_full 4 (fresh t) (tree_root t) key v =
      ((tree_root t, fresh t), Some TypeError)"
    by (rule inf_type_error)
  then show ?thesis
    using assms(1) False by (simp add: tree_insert_def tree_ok_def)
qed

lemma find_leaf_kinded:
  assumes "shaped node" and "kinded K node" and "is_text key = K"
  shows "\<exists>leaf. find_leaf node key = Inr leaf"
  using assms
proof (induction node key rule: find_leaf.induct)
  case (1 n lf ks cs vs nx key)
  show ?case
  proof (cases lf)
    case True
    then show ?thesis by simp
  next
    case False
    have "list_all (\<lambda>k. is_text k = is_text key) ks"
      using "1.prems"(2,3) by simp
    then obtain i where Inr: "bisect_left ks key = Inr i"
      using bisect_left_same_kind by blast
    then have "i \<le> length ks" by (rule bisect_left_bound)
    then have il: "i < length cs" using "1.prems"(1) False by simp
    then have g: "list_get cs i = Inr (cs ! i)" by (simp add: list_get_def)
    have sc: "shaped (cs ! i)" using "1.prems"(1) False il by (simp add: list_all_length)
    have kc: "kinded K (cs ! i)" using "1.prems"(2) False il by (simp add: list_all_length)
    from "1.IH"[OF False Inr g sc kc "1.prems"(3)]
    show ?thesis using False Inr g by simp
  qed
qed

lemma search_kinded:
  assumes "tree_ok t" and "kinded K (tree_root t)" and "is_text key = K"
  shows "\<exists>found. search t key = Inr found"
proof -
  have s: "shaped (tree_root t)" using assms(1) by (simp add: tree_ok_def)
  from find_leaf_kinded[OF s assms(2,3)]
  obtain leaf where l: "find_leaf (tree_root t) key = Inr leaf" by blast
  with find_leaf_shaped[OF s, of key]
  have sl: "shaped leaf" "is_leaf leaf" by simp_all
  show ?thesis
  proof (cases "index_of (keys leaf) key")
    case None
    then show ?thesis using l by (simp add: search_def)
  next
    case (Some idx)
    then have "idx < length (vals leaf)"
      using sl index_of_bound[OF Some] by (simp add: shaped_sel)
    then show ?thesis using l Some by (simp add: search_def list_get_def)
  qed
qed

lemma index_row_same_kind:
  assumes "tree_ok t" and "kinded K (tree_root t)" and "is_text v = K"
  shows "snd (index_row h t v r) = None \<and>
         tree_ok (snd (fst (index_row h t v r))) \<and>
         kinded K (tree_root (snd (fst (index_row h t v r)))) \<and>
         keys (tree_root (snd (fst (index_row h t v r)))) \<noteq> []"
proof -
  obtain found where f: "search t v = Inr found"
    using search_kinded[OF assms] by blast
  define a where "a = (case found of None \<Rightarrow> length h
                        | Some a \<Rightarrow> if deref h a = [] then length h else a)"
  define h1 where "h1 = (case found of None \<Rightarrow> h @ [[]]
                         | Some a \<Rightarrow> if deref h a = [] then h @ [[]] else h)"
  have sel: "(case found of None \<Rightarrow> (length h, h @ [[]])
              | Some a \<Rightarrow> if deref h a = [] then (length h, h @ [[]]) else (a, h)) = (a, h1)"
    by (simp add: a_def h1_def split: option.splits)
  obtain t' err where ti: "tree_insert t v a = (t', err)" by (cases "tree_insert t v a")
  have res: "index_row h t v r = ((h1[a := deref h1 a @ [r]], t'), err)"
    using f ti by (simp add: index_row_def sel)
  from tree_insert_kinded[OF assms, of a] tree_insert_ok[OF assms(1), of v a] ti
  show ?thesis unfolding res by simp
qed

lemma index_row_diff_kind:
  assumes "tree_ok t" and "kinded K (tree_root t)" and "keys (tree_root t) \<noteq> []"
    and "is_text v \<noteq> K"
  shows "snd (index_row h t v r) = Some TypeError"
proof (cases "search t v")
  case (Inl e)
  with search_ok[OF assms(1), of v] show ?thesis by (simp add: index_row_def)
next
  case (Inr found)
  define a where "a = (case found of None \<Rightarrow> length h
                        | Some a \<Rightarrow> if deref h a = [] then length h else a)"
  define h1 where "h1 = (case found of None \<Rightarrow> h @ [[]]
                         | Some a \<Rightarrow> if deref h a = [] then h @ [[]] else h)"
  have sel: "(case found of None \<Rightarrow> (length h, h @ [[]])
              | Some a \<Rightarrow> if deref h a = [] then (length h, h @ [[]]) else (a, h)) = (a, h1)"
    by (simp add: a_def h1_def split: option.splits)
  obtain t' err where ti: "tree_insert t v a = (t', err)" by (cases "tree_insert t v a")
  have res: "index_row h t v r = ((h1[a := deref h1 a @ [r]], t'), err)"
    using Inr ti by (simp add: index_row_def sel)
  from tree_insert_type_error[OF assms, of a] ti
  show ?thesis unfolding res by simp
qed

lemma build_index_nonempty:
  assumes "tree_ok t" and "kinded K (tree_root t)" and "keys (tree_root t) \<noteq> []"
  shows "(snd (build_index h t c rs) = None) =
         list_all (\<lambda>v. is_text v = K) (column_values c rs)"
  using assms
proof (induction rs arbitrary: h t)
  case Nil
  show ?case by (simp add: column_values_def map_filter_simps)
next
  case (Cons r rs)
  show ?case
  proof (cases "map_of r c")
    case None
    with Cons.IH[OF Cons.prems, of h] show ?thesis
      by (simp add: column_values_def map_filter_simps)
  next
    case (Some v)
    obtain h' t' err where ir: "index_row h t v r = ((h', t'), err)"
      by (metis surj_pair)
    show ?thesis
    proof (cases "is_text v = K")
      case True
      from index_row_same_kind[OF Cons.prems(1,2) True, of h r] ir
      have e: "err = None" and t': "tree_ok t'" "kinded K (tree_root t')"
        "keys (tree_root t') \<noteq> []" by simp_all
      show ?thesis
        using Cons.IH[OF t', of h'] Some ir e True
        by (simp add: column_values_def map_filter_simps)
    next
      case False
      from index_row_diff_kind[OF Cons.prems False, of h r] ir
      have "err = Some TypeError" by simp
      then show ?thesis
        using Some ir False by (simp add: column_values_def map_filter_simps)
    qed
  qed
qed

lemma kinded_new_tree: "kinded K (tree_root (new_tree 4))"
  by (simp add: new_tree_def)

lemma build_index_new:
  "(snd (build_index h (new_tree 4) c rs) = None) = orderable (column_values c rs)"
proof (induction rs arbitrary: h)
  case Nil
  show ?case by (simp add: column_values_def map_filter_simps)
next
  case (Cons r rs)
  show ?case
  proof (cases "map_of r c")
    case None
    with Cons.IH[of h] show ?thesis by (simp add: column_values_def map_filter_simps)
  next
    case (Some v)
    obtain h' t' err where ir: "index_row h (new_tree 4) v r = ((h', t'), err)"
      by (metis surj_pair)
    from index_row_same_kind[OF tree_ok_new kinded_new_tree refl, where v = v and h = h and r = r] ir
    have e: "err = None" and t': "tree_ok t'" "kinded (is_text v) (tree_root t')"
      "keys (tree_root t') \<noteq> []" by simp_all
    show ?thesis
      using build_index_nonempty[OF t', of h' c rs] Some ir e
      by (simp add: column_values_def map_filter_simps)
  qed
qed

section \<open>C5 and C10: creating a table under a registered name\<close>

lemma create_index_ok:
  "(snd (create_index e tn c nm) = None \<or> snd (create_index e tn c nm) = Some TypeError) \<and>
   tables (fst (create_index e tn c nm)) = tables e \<and>
   wal (fst (create_index e tn c nm)) = wal e \<and>
   snapshot_file (fst (create_index e tn c nm)) = snapshot_file e \<and>
   heap_le (heap e) (heap (fst (create_index e tn c nm))) \<and>
   (snd (create_index e tn c nm) \<noteq> None \<longrightarrow>
      indexes (fst (create_index e tn c nm)) = indexes e)"
proof (cases "map_of (tables e) tn")
  case None
  then show ?thesis by (simp add: create_index_def Let_def)
next
  case (Some tb)
  obtain h t err where b: "build_index (heap e) (new_tree 4) c (rows tb) = ((h, t), err)"
    by (metis surj_pair)
  from build_index_ok[OF tree_ok_new, of "heap e" c "rows tb"] b
  have "err = None \<or> err = Some TypeError" and "heap_le (heap e) h" by simp_all
  then show ?thesis using Some b by (auto simp: create_index_def Let_def)
qed

lemma default_index_key_inj:
  "default_index_key tn c = default_index_key tn c' \<Longrightarrow> c = c'"
  by (simp add: default_index_key_def)

lemma index_holds_mono:
  assumes "index_holds e tn c rs" and "indexes e' = indexes e" and "heap_le (heap e) (heap e')"
  shows "index_holds e' tn c rs"
proof -
  have "set (bucket_rows (heap e) t) \<subseteq> set (bucket_rows (heap e') t)" for t
    using assms(3) by (rule bucket_rows_mono)
  then show ?thesis
    using assms(1,2) by (auto simp: index_holds_def list_all_iff split: option.splits)
qed

lemma create_index_holds:
  assumes "map_of (tables e) tn = Some tb" and "snd (create_index e tn c None) = None"
  shows "index_holds (fst (create_index e tn c None)) tn c (rows tb)"
    and "c' \<noteq> c \<Longrightarrow> index_holds e tn c' rs \<Longrightarrow> index_holds (fst (create_index e tn c None)) tn c' rs"
proof -
  obtain h t err where b: "build_index (heap e) (new_tree 4) c (rows tb) = ((h, t), err)"
    by (metis surj_pair)
  have err: "err = None" using assms b by (auto simp: create_index_def Let_def split: option.splits)
  have res: "create_index e tn c None =
      (e\<lparr>heap := h, indexes := AList.update (default_index_key tn c)
            \<lparr>idx_table = tn, idx_column = c, tree = t\<rparr> (indexes e)\<rparr>, None)"
    using assms(1) b err by (simp add: create_index_def Let_def)
  from build_index_ok[OF tree_ok_new, of "heap e" c "rows tb"] b err
  have le: "heap_le (heap e) h"
    and all: "\<forall>r \<in> set (rows tb). map_of r c \<noteq> None \<longrightarrow> r \<in> set (bucket_rows h t)"
    by simp_all
  show "index_holds (fst (create_index e tn c None)) tn c (rows tb)"
    unfolding res using all by (auto simp: index_holds_def update_conv' list_all_iff)
  show "index_holds (fst (create_index e tn c None)) tn c' rs"
    if ne: "c' \<noteq> c" and old: "index_holds e tn c' rs"
  proof -
    have k: "default_index_key tn c' \<noteq> default_index_key tn c"
      using ne default_index_key_inj by blast
    have "set (bucket_rows (heap e) u) \<subseteq> set (bucket_rows h u)" for u
      using le by (rule bucket_rows_mono)
    then show ?thesis
      unfolding res using old k
      by (auto simp: index_holds_def update_conv' list_all_iff split: option.splits)
  qed
qed

lemma create_index_step:
  assumes "map_of (tables e) tn = Some tb"
    and "\<forall>c' \<in> S. index_holds e tn c' (rows tb)"
    and "snd (create_index e tn c None) = None"
  shows "\<forall>c' \<in> insert c S. index_holds (fst (create_index e tn c None)) tn c' (rows tb)"
  using create_index_holds[OF assms(1,3)] assms(2) by (metis insert_iff)

lemma create_table_indexes_Cons:
  assumes "r1 = (if is_primary c then create_index e tn (col_name c) None else (e, None))"
    and "r2 = (if is_unique c then create_index (fst r1) tn (col_name c) None
               else (fst r1, None))"
  shows "create_table_indexes e tn (c # cs) pk =
     (case snd r1 of
        Some err \<Rightarrow> ((fst r1, pk), Some err)
      | None \<Rightarrow>
          (case snd r2 of
             Some err \<Rightarrow> ((fst r2, pk), Some err)
           | None \<Rightarrow> create_table_indexes (fst r2) tn cs
                       (if is_primary c then Some (col_name c) else pk)))"
proof -
  obtain a x where r1': "r1 = (a, x)" by (cases r1)
  obtain b y where r2': "r2 = (b, y)" by (cases r2)
  have A: "(if is_primary c then create_index e tn (col_name c) None else (e, None)) = (a, x)"
    using assms(1) r1' by simp
  have B: "(if is_unique c then create_index a tn (col_name c) None else (a, None)) = (b, y)"
    using assms(2) r1' r2' by simp
  show ?thesis
    by (cases x; cases y) (simp_all only: create_table_indexes.simps A B r1' r2'
        prod.case option.case fst_conv snd_conv)
qed

lemma create_table_indexes_ok:
  assumes "map_of (tables e) tn = Some tb"
    and "\<forall>c' \<in> S. index_holds e tn c' (rows tb)"
  shows "(snd (create_table_indexes e tn cols pk) = None \<or>
          snd (create_table_indexes e tn cols pk) = Some TypeError) \<and>
         tables (fst (fst (create_table_indexes e tn cols pk))) = tables e \<and>
         wal (fst (fst (create_table_indexes e tn cols pk))) = wal e \<and>
         (snd (create_table_indexes e tn cols pk) = None \<longrightarrow>
            (\<forall>c' \<in> S \<union> set (indexed_columns cols).
               index_holds (fst (fst (create_table_indexes e tn cols pk))) tn c' (rows tb)))"
  using assms
proof (induction cols arbitrary: e pk S)
  case Nil
  then show ?case by (simp add: indexed_columns_def)
next
  case (Cons c cs)
  define r1 where "r1 = (if is_primary c then create_index e tn (col_name c) None else (e, None))"
  define ea where "ea = fst r1"
  define r2 where "r2 = (if is_unique c then create_index ea tn (col_name c) None else (ea, None))"
  define eb where "eb = fst r2"
  define S1 where "S1 = (if is_primary c then insert (col_name c) S else S)"
  define S2 where "S2 = (if is_unique c then insert (col_name c) S1 else S1)"
  note unf = create_table_indexes_Cons[OF r1_def r2_def[unfolded ea_def], of cs pk]
  have p1: "(snd r1 = None \<or> snd r1 = Some TypeError) \<and> tables ea = tables e \<and> wal ea = wal e"
    using create_index_ok[of e tn "col_name c" None] by (simp add: r1_def ea_def)
  have p2: "(snd r2 = None \<or> snd r2 = Some TypeError) \<and> tables eb = tables ea \<and> wal eb = wal ea"
    using create_index_ok[of ea tn "col_name c" None] by (simp add: r2_def eb_def)
  show ?case
  proof (cases "snd r1")
    case (Some err)
    then have "create_table_indexes e tn (c # cs) pk = ((ea, pk), Some err)"
      unfolding unf by (simp add: ea_def)
    then show ?thesis using p1 Some by simp
  next
    case n1: None
    have h1: "\<forall>c' \<in> S1. index_holds ea tn c' (rows tb)"
      using create_index_step[OF Cons.prems(1,2), of "col_name c"] n1 Cons.prems(2)
      by (simp add: r1_def ea_def S1_def split: if_splits)
    have t1: "map_of (tables ea) tn = Some tb" using p1 Cons.prems(1) by simp
    show ?thesis
    proof (cases "snd r2")
      case (Some err)
      then have "create_table_indexes e tn (c # cs) pk = ((eb, pk), Some err)"
        using n1 unfolding unf by (simp add: eb_def)
      then show ?thesis using p1 p2 Some by simp
    next
      case n2: None
      have h2: "\<forall>c' \<in> S2. index_holds eb tn c' (rows tb)"
        using create_index_step[OF t1 h1, of "col_name c"] n2 h1
        by (simp add: r2_def eb_def S2_def split: if_splits)
      have t2: "map_of (tables eb) tn = Some tb" using p2 t1 by simp
      have res: "create_table_indexes e tn (c # cs) pk =
          create_table_indexes eb tn cs (if is_primary c then Some (col_name c) else pk)"
        using n1 n2 unfolding unf by (simp add: eb_def)
      have sub: "S \<union> set (indexed_columns (c # cs)) = S2 \<union> set (indexed_columns cs)"
        by (auto simp: S1_def S2_def indexed_columns_def)
      from Cons.IH[OF t2 h2, of "if is_primary c then Some (col_name c) else pk"] p1 p2
      show ?thesis unfolding res sub by simp
    qed
  qed
qed

lemma create_table_result:
  assumes "create_table_indexes e tn cols None = ((ea, pk), err)"
  shows "create_table e tn cols =
     (case err of
        Some x \<Rightarrow> (ea, Some x)
      | None \<Rightarrow>
          (ea\<lparr>tables := AList.update tn (table_init tn cols pk) (tables ea),
              wal := fst (wal_append (wal ea) ''CREATE_TABLE'' tn (ColumnsP cols))\<rparr>, None))"
  using assms by (simp add: create_table_def split: option.splits)

lemma create_index_orderable:
  assumes "map_of (tables e) tn = Some tb"
  shows "(snd (create_index e tn c nm) = None) = orderable (column_values c (rows tb))"
proof -
  obtain h t err where b: "build_index (heap e) (new_tree 4) c (rows tb) = ((h, t), err)"
    by (metis surj_pair)
  from build_index_new[of "heap e" c "rows tb"] b
  have "(err = None) = orderable (column_values c (rows tb))" by simp
  then show ?thesis
    using assms b by (cases err) (simp_all add: create_index_def Let_def)
qed

lemma create_table_indexes_orderable:
  assumes "map_of (tables e) tn = Some tb"
  shows "(snd (create_table_indexes e tn cols pk) = None) =
         indexable (rows tb) (indexed_columns cols)"
  using assms
proof (induction cols arbitrary: e pk)
  case Nil
  show ?case by (simp add: indexed_columns_def indexable_def)
next
  case (Cons c cs)
  define r1 where "r1 = (if is_primary c then create_index e tn (col_name c) None else (e, None))"
  define ea where "ea = fst r1"
  define r2 where "r2 = (if is_unique c then create_index ea tn (col_name c) None else (ea, None))"
  define eb where "eb = fst r2"
  define good where "good = orderable (column_values (col_name c) (rows tb))"
  note unf = create_table_indexes_Cons[OF r1_def r2_def[unfolded ea_def], of cs pk]
  have t1: "map_of (tables ea) tn = Some tb"
    using create_index_ok[of e tn "col_name c" None] Cons.prems by (simp add: r1_def ea_def)
  have t2: "map_of (tables eb) tn = Some tb"
    using create_index_ok[of ea tn "col_name c" None] t1 by (simp add: r2_def eb_def)
  have s1: "(snd r1 = None) = (is_primary c \<longrightarrow> good)"
    using create_index_orderable[OF Cons.prems, of "col_name c" None]
    by (simp add: r1_def good_def)
  have s2: "(snd r2 = None) = (is_unique c \<longrightarrow> good)"
    using create_index_orderable[OF t1, of "col_name c" None]
    by (simp add: r2_def good_def)
  have ic: "indexable (rows tb) (indexed_columns (c # cs)) =
      ((is_primary c \<or> is_unique c \<longrightarrow> good) \<and> indexable (rows tb) (indexed_columns cs))"
    by (auto simp: indexable_def indexed_columns_def good_def)
  show ?case
  proof (cases "snd r1")
    case (Some err)
    then have "create_table_indexes e tn (c # cs) pk = ((ea, pk), Some err)"
      unfolding unf by (simp add: ea_def)
    then show ?thesis using s1 Some unfolding ic by auto
  next
    case n1: None
    show ?thesis
    proof (cases "snd r2")
      case (Some err)
      then have "create_table_indexes e tn (c # cs) pk = ((eb, pk), Some err)"
        using n1 unfolding unf by (simp add: eb_def)
      then show ?thesis using s2 Some unfolding ic by auto
    next
      case n2: None
      have res: "create_table_indexes e tn (c # cs) pk =
          create_table_indexes eb tn cs (if is_primary c then Some (col_name c) else pk)"
        using n1 n2 unfolding unf by (simp add: eb_def)
      show ?thesis
        unfolding res ic
        using Cons.IH[OF t2, of "if is_primary c then Some (col_name c) else pk"] s1 s2 n1 n2
        by auto
    qed
  qed
qed

text \<open>
  C5 says that \<open>create_table\<close> on a name that is already registered fails with a schema
  error and leaves the registered table unchanged. The code has no such check: on the
  engine \<open>e3\<close>, where \<open>t\<close> is registered with two rows, \<open>create_table\<close> for \<open>t\<close> returns
  without an exception, and the name is then registered for a new table without rows.
\<close>

theorem create_table_accepts_registered_name:
  "map_of (tables e3) ''t'' = Some t3 \<and>
   snd (create_table e3 ''t'' cols_t) = None \<and>
   map_of (tables (fst (create_table e3 ''t'' cols_t))) ''t'' =
     Some (table_init ''t'' cols_t (Some ''id''))"
  by code_simp

text \<open>
  C10, as amended: on a name that is already registered \<open>create_table\<close> succeeds exactly
  when, in every primary or unique column of the new definition, the values held by the
  rows of the previously registered table are all numbers or all strings. Otherwise it
  raises \<open>TypeError\<close>, and the tables and the log are unchanged. When it succeeds, the
  table registered for the name has no rows, while for every primary or unique column
  of the new definition the index registered for that table and column holds, in its
  buckets, every row of the previously registered table that has a value in the column.
\<close>

theorem create_table_stale_indexes:
  assumes "map_of (tables e) table_name = Some old"
  shows "((snd (create_table e table_name cols) = None) =
            indexable (rows old) (indexed_columns cols)) \<and>
         (snd (create_table e table_name cols) = None \<or>
          snd (create_table e table_name cols) = Some TypeError) \<and>
         (snd (create_table e table_name cols) = Some TypeError \<longrightarrow>
            tables (fst (create_table e table_name cols)) = tables e \<and>
            wal (fst (create_table e table_name cols)) = wal e) \<and>
         (snd (create_table e table_name cols) = None \<longrightarrow>
            (\<exists>tb'. map_of (tables (fst (create_table e table_name cols))) table_name = Some tb' \<and>
               rows tb' = []) \<and>
            (\<forall>c \<in> set (indexed_columns cols).
               index_holds (fst (create_table e table_name cols)) table_name c (rows old)))"
proof -
  obtain ea pk err where c: "create_table_indexes e table_name cols None = ((ea, pk), err)"
    by (metis surj_pair)
  have "\<forall>c' \<in> {}. index_holds e table_name c' (rows old)" by simp
  from create_table_indexes_ok[OF assms this, of cols None] c
  have e: "err = None \<or> err = Some TypeError"
    and t: "tables ea = tables e" and w: "wal ea = wal e"
    and h: "err = None \<Longrightarrow> \<forall>c' \<in> set (indexed_columns cols).
        index_holds ea table_name c' (rows old)"
    by simp_all
  from create_table_indexes_orderable[OF assms, of cols None] c
  have o: "(err = None) = indexable (rows old) (indexed_columns cols)" by simp
  have ih: "index_holds (ea\<lparr>tables := ts, wal := w\<rparr>) table_name c' rs =
      index_holds ea table_name c' rs" for ts w c' rs
    by (simp add: index_holds_def cong: option.case_cong)
  show ?thesis
  proof (cases err)
    case None
    then show ?thesis
      unfolding create_table_result[OF c] using o h
      by (simp add: update_conv' table_init_def ih)
  next
    case (Some x)
    then show ?thesis
      unfolding create_table_result[OF c] using o e t w by simp
  qed
qed

text \<open>
  C10 as stated fails where it says that the call succeeds: on \<open>e3_mixed\<close> the build of
  the index on \<open>email\<close> over the old rows raises \<open>TypeError\<close>, and the table is not
  replaced.
\<close>

theorem create_table_type_error_on_registered_name:
  "snd (db_insert e3 ''t'' [''email''] [IntV 1]) = Inl TypeError \<and>
   map (\<lambda>(n, t). (n, map (\<lambda>r. map_of r ''email'') (rows t))) (tables e3_mixed) =
     [(''t'', [Some (TextV ''a''), Some (TextV ''b''), Some (IntV 1)])] \<and>
   snd (create_table e3_mixed ''t'' cols_t) = Some TypeError \<and>
   tables (fst (create_table e3_mixed ''t'' cols_t)) = tables e3_mixed"
  by code_simp

text \<open>
  The theorem on the engine \<open>e3\<close>: the old rows hold numbers in \<open>id\<close> and strings in
  \<open>email\<close>, the new table \<open>t\<close> has no rows, and a lookup of the \<^verbatim>\<open>email\<close> of the first
  old row through the new index returns that row.
\<close>

theorem create_table_stale_indexes_witness:
  "map_of (tables e3) ''t'' = Some t3 \<and>
   indexable (rows t3) (indexed_columns cols_t) \<and>
   snd (create_table e3 ''t'' cols_t) = None \<and>
   (\<exists>tb'. map_of (tables (fst (create_table e3 ''t'' cols_t))) ''t'' = Some tb' \<and>
      rows tb' = []) \<and>
   index_holds (fst (create_table e3 ''t'' cols_t)) ''t'' ''id'' (rows t3) \<and>
   index_holds (fst (create_table e3 ''t'' cols_t)) ''t'' ''email'' (rows t3) \<and>
   filter_rows (fst (create_table e3 ''t'' cols_t)) (table_init ''t'' cols_t (Some ''id'')) []
     ''email'' (TextV ''a'') = Inr [[(''id'', IntV 1), (''email'', TextV ''a'')]]"
proof -
  have s: "snd (create_table e3 ''t'' cols_t) = None" by code_simp
  have i: "''id'' \<in> set (indexed_columns cols_t)" "''email'' \<in> set (indexed_columns cols_t)"
    by code_simp+
  have f: "filter_rows (fst (create_table e3 ''t'' cols_t)) (table_init ''t'' cols_t (Some ''id''))
      [] ''email'' (TextV ''a'') = Inr [[(''id'', IntV 1), (''email'', TextV ''a'')]]"
    by code_simp
  show ?thesis
    using e3_table s i f create_table_stale_indexes[OF e3_table, of cols_t] by simp
qed

section \<open>C8: snapshot round trip\<close>



lemma set_py_set [simp]: "set (py_set xs) = set xs"
proof -
  have "set (fold set_add xs acc) = set xs \<union> set acc" for acc
    by (induction xs arbitrary: acc) (auto simp: set_add_def)
  then show ?thesis by (simp add: py_set_def)
qed












end
